theory Spec2Isabelle
  imports Main "HOL-Library.AList"
begin

section \<open>Data model\<close>

text \<open>
  The crossword generator of \<^verbatim>\<open>generate.py\<close>: class \<^verbatim>\<open>CrosswordCreator\<close> and its
  methods. The classes \<^verbatim>\<open>Variable\<close> and \<^verbatim>\<open>Crossword\<close> come from the module
  \<^verbatim>\<open>crossword\<close>, which the creator only reads; they are taken as parameters here:
  a \<^verbatim>\<open>Variable\<close> is a record of its four fields, a \<^verbatim>\<open>Crossword\<close> a record of what
  the creator reads from it (the variables, the words, the overlap table and the
  neighbour function).

  Python sets and dictionaries are lists here, in their iteration order; the elements
  of a set and the keys of a dictionary are distinct. \<^verbatim>\<open>overlaps[x, y]\<close> is either a
  pair of indices or \<^verbatim>\<open>None\<close>; unpacking \<^verbatim>\<open>None\<close> into \<^verbatim>\<open>(i, j)\<close> raises
  \<^verbatim>\<open>TypeError\<close>. Every exception of the source is a value \<open>Inl e\<close>.
\<close>

datatype direction = ACROSS | DOWN

record variable =
  var_i :: nat
  var_j :: nat
  var_direction :: direction
  var_length :: nat

record crossword =
  variables :: "variable list"
  words :: "string list"
  overlaps :: "variable \<Rightarrow> variable \<Rightarrow> (nat \<times> nat) option"
  neighbors :: "variable \<Rightarrow> variable list"

datatype py_error = KeyError | TypeError | IndexError

type_synonym domain_store = "(variable \<times> string list) list"

type_synonym assignment = "(variable \<times> string) list"

type_synonym arc = "variable \<times> variable"

record creator =
  crossword :: crossword
  domains :: domain_store

text \<open>\<^verbatim>\<open>__init__\<close>: every variable starts with a copy of the whole word set.\<close>

definition init :: "crossword \<Rightarrow> creator" where
  "init cw = \<lparr>crossword = cw, domains = map (\<lambda>var. (var, words cw)) (variables cw)\<rparr>"

section \<open>Node consistency\<close>

text \<open>
  \<^verbatim>\<open>enforce_node_consistency\<close>: for every key of \<^verbatim>\<open>self.domains\<close>, the words whose
  length differs from the variable's length are discarded from a copy of its domain,
  and the copy is stored back under the same key.
\<close>

definition enforce_node_consistency :: "creator \<Rightarrow> creator" where
  "enforce_node_consistency c =
     c\<lparr>domains :=
        map (\<lambda>(variable, ws). (variable, filter (\<lambda>word. length word = var_length variable) ws))
          (domains c)\<rparr>"

section \<open>Arc consistency\<close>

text \<open>
  The inner loop of \<^verbatim>\<open>revise\<close>: \<^verbatim>\<open>counter\<close> counts the words \<^verbatim>\<open>yvalue\<close> with
  \<^verbatim>\<open>xvalue[i] == yvalue[j]\<close>. An index beyond a word raises \<^verbatim>\<open>IndexError\<close>.
\<close>

fun count_matches :: "nat \<Rightarrow> nat \<Rightarrow> string \<Rightarrow> string list \<Rightarrow> py_error + nat" where
  "count_matches i j xvalue [] = Inr 0"
| "count_matches i j xvalue (yvalue # ys) =
     (if i < length xvalue \<and> j < length yvalue
      then (case count_matches i j xvalue ys of
              Inl e \<Rightarrow> Inl e
            | Inr counter \<Rightarrow> Inr (if xvalue ! i = yvalue ! j then counter + 1 else counter))
      else Inl IndexError)"

text \<open>
  The outer loop of \<^verbatim>\<open>revise\<close> over \<^verbatim>\<open>self.domains[x]\<close>. It returns \<^verbatim>\<open>revised\<close> and
  the words left in \<^verbatim>\<open>xval\<close>. \<^verbatim>\<open>self.domains[y]\<close> is looked up in the header of the
  inner loop, so a missing key \<^verbatim>\<open>y\<close> raises \<^verbatim>\<open>KeyError\<close> only when the outer loop
  has a word to visit.
\<close>

fun revise_loop ::
  "nat \<Rightarrow> nat \<Rightarrow> string list \<Rightarrow> string list option \<Rightarrow> py_error + (bool \<times> string list)" where
  "revise_loop i j [] dy = Inr (False, [])"
| "revise_loop i j (xvalue # xs) dy =
     (case dy of
        None \<Rightarrow> Inl KeyError
      | Some ys \<Rightarrow>
          (case count_matches i j xvalue ys of
             Inl e \<Rightarrow> Inl e
           | Inr counter \<Rightarrow>
               (case revise_loop i j xs dy of
                  Inl e \<Rightarrow> Inl e
                | Inr (revised, xval) \<Rightarrow>
                    if counter = 0 then Inr (True, xval) else Inr (revised, xvalue # xval))))"

definition revise :: "creator \<Rightarrow> variable \<Rightarrow> variable \<Rightarrow> py_error + (bool \<times> creator)" where
  "revise c x y =
     (case map_of (domains c) x of
        None \<Rightarrow> Inl KeyError
      | Some dx \<Rightarrow>
          (case overlaps (crossword c) x y of
             None \<Rightarrow> Inl TypeError
           | Some (i, j) \<Rightarrow>
               (case revise_loop i j dx (map_of (domains c) y) of
                  Inl e \<Rightarrow> Inl e
                | Inr (revised, xval) \<Rightarrow>
                    Inr (revised, c\<lparr>domains := AList.update x xval (domains c)\<rparr>))))"

text \<open>
  One turn of the \<^verbatim>\<open>while\<close> loop of \<^verbatim>\<open>ac3\<close>: the arc \<^verbatim>\<open>(v, p)\<close> has been taken
  from the queue, whose remaining arcs are \<open>arcs\<close>; when \<^verbatim>\<open>revise(v, p)\<close> returns
  true, \<^verbatim>\<open>(other, v)\<close> is put at the end of the queue for every \<^verbatim>\<open>other\<close> of
  \<^verbatim>\<open>neighbors(v)\<close>.
\<close>

definition ac3_body :: "creator \<Rightarrow> arc \<Rightarrow> arc list \<Rightarrow> py_error + (creator \<times> arc list)" where
  "ac3_body c arc arcs =
     (case arc of (v, p) \<Rightarrow>
        (case revise c v p of
           Inl e \<Rightarrow> Inl e
         | Inr (result, c') \<Rightarrow>
             if result
             then Inr (c', arcs @ map (\<lambda>other. (other, v)) (neighbors (crossword c') v))
             else Inr (c', arcs)))"

text \<open>The measure of the queue loop: the number of words in all domains.\<close>

definition domain_total :: "domain_store \<Rightarrow> nat" where
  "domain_total d = sum_list (map (\<lambda>(variable, ws). length ws) d)"

lemma count_matches_Inr:
  "count_matches i j w ys = Inr n \<Longrightarrow>
     n = length (filter (\<lambda>v. w ! i = v ! j) ys) \<and>
     (ys \<noteq> [] \<longrightarrow> i < length w) \<and> (\<forall>v \<in> set ys. j < length v)"
proof (induction ys arbitrary: n)
  case Nil
  then show ?case by simp
next
  case (Cons y ys)
  from Cons.prems obtain m where ok: "i < length w" "j < length y"
    and rec: "count_matches i j w ys = Inr m"
    and n: "n = (if w ! i = y ! j then m + 1 else m)"
    by (simp split: if_splits sum.splits)
  from Cons.IH [OF rec] ok n show ?case by simp
qed

lemma count_matches_zero:
  "count_matches i j w ys = Inr n \<Longrightarrow> n = 0 \<longleftrightarrow> \<not> (\<exists>v \<in> set ys. w ! i = v ! j)"
  by (drule count_matches_Inr) (simp add: filter_empty_conv)

lemma revise_loop_Inr:
  "revise_loop i j dx dy = Inr (revised, xval) \<Longrightarrow>
     xval = filter (\<lambda>w. \<exists>v \<in> set (the dy). w ! i = v ! j) dx \<and>
     (revised \<longleftrightarrow> xval \<noteq> dx)"
proof (induction dx arbitrary: revised xval)
  case Nil
  then show ?case by simp
next
  case (Cons w ws)
  from Cons.prems obtain ys where dy: "dy = Some ys"
    by (cases dy) simp_all
  from Cons.prems dy obtain n where cm: "count_matches i j w ys = Inr n"
    by (cases "count_matches i j w ys") simp_all
  from Cons.prems dy cm obtain r xv where rl: "revise_loop i j ws dy = Inr (r, xv)"
    by (cases "revise_loop i j ws dy") auto
  from Cons.prems dy cm rl
  have res: "(revised, xval) = (if n = 0 then (True, xv) else (r, w # xv))"
    by (simp split: if_splits)
  from Cons.IH [OF rl] have xv: "xv = filter (\<lambda>w. \<exists>v \<in> set (the dy). w ! i = v ! j) ws"
    and r: "r \<longleftrightarrow> xv \<noteq> ws" by simp_all
  have len: "length xv \<le> length ws" unfolding xv by simp
  show ?case
  proof (cases "n = 0")
    case True
    with count_matches_zero [OF cm] have no: "\<not> (\<exists>v \<in> set ys. w ! i = v ! j)" by simp
    have "xv \<noteq> w # ws" using len by auto
    with no res True xv dy show ?thesis by simp
  next
    case False
    with count_matches_zero [OF cm] have "\<exists>v \<in> set ys. w ! i = v ! j" by simp
    with res False xv r dy show ?thesis by simp
  qed
qed

lemma revise_loop_length:
  assumes "revise_loop i j dx dy = Inr (revised, xval)"
  shows "length xval \<le> length dx" and "revised \<Longrightarrow> length xval < length dx"
proof -
  from revise_loop_Inr [OF assms]
  have xv: "xval = filter (\<lambda>w. \<exists>v \<in> set (the dy). w ! i = v ! j) dx"
    and r: "revised \<longleftrightarrow> xval \<noteq> dx" by simp_all
  show "length xval \<le> length dx" unfolding xv by simp
  show "length xval < length dx" if revised
  proof -
    from that r have "xval \<noteq> dx" by simp
    then have "\<not> (\<forall>w \<in> set dx. \<exists>v \<in> set (the dy). w ! i = v ! j)"
      unfolding xv by (simp only: filter_id_conv not_False_eq_True)
    then obtain w where "w \<in> set dx" "\<not> (\<exists>v \<in> set (the dy). w ! i = v ! j)" by blast
    then show ?thesis unfolding xv by (rule length_filter_less)
  qed
qed

lemma domain_total_update:
  "map_of d x = Some dx \<Longrightarrow>
     domain_total (AList.update x xval d) + length dx = domain_total d + length xval"
proof (induction d)
  case Nil
  then show ?case by simp
next
  case (Cons p d)
  obtain k ws where p: "p = (k, ws)" by (cases p)
  show ?case
  proof (cases "k = x")
    case True
    with Cons.prems p show ?thesis by (simp add: domain_total_def)
  next
    case False
    with Cons.prems p have "map_of d x = Some dx" by simp
    from Cons.IH [OF this] False p show ?thesis by (simp add: domain_total_def)
  qed
qed

lemma revise_Inr:
  assumes "revise c x y = Inr (revised, c')"
  obtains dx i j xval where "map_of (domains c) x = Some dx"
    and "overlaps (crossword c) x y = Some (i, j)"
    and "revise_loop i j dx (map_of (domains c) y) = Inr (revised, xval)"
    and "c' = c\<lparr>domains := AList.update x xval (domains c)\<rparr>"
proof -
  from assms obtain dx where dx: "map_of (domains c) x = Some dx"
    by (cases "map_of (domains c) x") (simp_all add: revise_def)
  from assms dx obtain i j where ov: "overlaps (crossword c) x y = Some (i, j)"
    by (cases "overlaps (crossword c) x y") (auto simp: revise_def)
  from assms dx ov obtain xval
    where rl: "revise_loop i j dx (map_of (domains c) y) = Inr (revised, xval)"
      and c': "c' = c\<lparr>domains := AList.update x xval (domains c)\<rparr>"
    by (cases "revise_loop i j dx (map_of (domains c) y)") (auto simp: revise_def)
  from dx ov rl c' show thesis by (rule that)
qed

lemma revise_domain_total:
  assumes "revise c x y = Inr (revised, c')"
  shows "domain_total (domains c') \<le> domain_total (domains c)"
    and "revised \<Longrightarrow> domain_total (domains c') < domain_total (domains c)"
proof -
  from assms obtain dx i j xval where dx: "map_of (domains c) x = Some dx"
    and rl: "revise_loop i j dx (map_of (domains c) y) = Inr (revised, xval)"
    and c': "c' = c\<lparr>domains := AList.update x xval (domains c)\<rparr>"
    by (rule revise_Inr)
  from domain_total_update [OF dx, of xval]
  have eq: "domain_total (domains c') + length dx = domain_total (domains c) + length xval"
    by (simp add: c')
  from revise_loop_length(1) [OF rl] eq
  show "domain_total (domains c') \<le> domain_total (domains c)" by linarith
  from revise_loop_length(2) [OF rl] eq
  show "revised \<Longrightarrow> domain_total (domains c') < domain_total (domains c)" by linarith
qed

lemma ac3_body_Inr:
  assumes "ac3_body c (v, p) arcs = Inr (c', arcs')"
  obtains result where "revise c v p = Inr (result, c')"
    and "arcs' = (if result then arcs @ map (\<lambda>other. (other, v)) (neighbors (crossword c') v)
                  else arcs)"
proof -
  from assms obtain result c1 where rv: "revise c v p = Inr (result, c1)"
    by (cases "revise c v p") (auto simp: ac3_body_def)
  with assms have "c1 = c'"
    and "arcs' = (if result then arcs @ map (\<lambda>other. (other, v)) (neighbors (crossword c') v)
                  else arcs)"
    by (auto simp: ac3_body_def split: if_splits)
  with rv show thesis by (auto intro: that)
qed

text \<open>
  The \<^verbatim>\<open>while not arcs.empty()\<close> loop of \<^verbatim>\<open>ac3\<close> over the first-in first-out queue.
  It ends: a revision that returns true removes a word from a domain, and one that
  returns false leaves the queue one arc shorter.
\<close>

function ac3_loop :: "creator \<Rightarrow> arc list \<Rightarrow> py_error + creator" where
  "ac3_loop c [] = Inr c"
| "ac3_loop c (arc # arcs) =
     (case ac3_body c arc arcs of
        Inl e \<Rightarrow> Inl e
      | Inr (c', arcs') \<Rightarrow> ac3_loop c' arcs')"
  by pat_completeness auto
termination
proof (relation "inv_image (less_than <*lex*> less_than)
    (\<lambda>(c, arcs). (domain_total (domains c), length arcs))")
  show "wf (inv_image (less_than <*lex*> less_than)
    (\<lambda>(c, arcs). (domain_total (domains c), length arcs)))"
    by (intro wf_inv_image wf_lex_prod wf_less_than)
next
  fix c :: creator and arc :: arc and arcs :: "arc list" and x2 c' arcs'
  assume body: "ac3_body c arc arcs = Inr x2" and x2: "(c', arcs') = x2"
  obtain v p where arc: "arc = (v, p)" by (cases arc)
  from body x2 arc have "ac3_body c (v, p) arcs = Inr (c', arcs')" by simp
  then obtain result where rv: "revise c v p = Inr (result, c')"
    and q: "arcs' = (if result then arcs @ map (\<lambda>other. (other, v)) (neighbors (crossword c') v)
                     else arcs)"
    by (rule ac3_body_Inr)
  show "((c', arcs'), (c, arc # arcs)) \<in> inv_image (less_than <*lex*> less_than)
    (\<lambda>(c, arcs). (domain_total (domains c), length arcs))"
  proof (cases result)
    case True
    with revise_domain_total(2) [OF rv] show ?thesis by simp
  next
    case False
    with revise_domain_total(1) [OF rv] q show ?thesis by auto
  qed
qed

text \<open>
  \<^verbatim>\<open>ac3(arcs=None)\<close>: without a queue the loop starts from every arc
  \<^verbatim>\<open>(value, pair)\<close> with \<^verbatim>\<open>pair\<close> a neighbour of \<^verbatim>\<open>value\<close>; after the loop the
  result is false when some domain is empty.
\<close>

definition initial_arcs :: "creator \<Rightarrow> arc list" where
  "initial_arcs c =
     concat (map (\<lambda>value. map (\<lambda>pair. (value, pair)) (neighbors (crossword c) value))
       (map fst (domains c)))"

definition ac3 :: "creator \<Rightarrow> arc list option \<Rightarrow> py_error + (bool \<times> creator)" where
  "ac3 c arcs =
     (case ac3_loop c (case arcs of None \<Rightarrow> initial_arcs c | Some q \<Rightarrow> q) of
        Inl e \<Rightarrow> Inl e
      | Inr c' \<Rightarrow> Inr (\<not> list_ex (\<lambda>(value, ws). length ws = 0) (domains c'), c'))"

section \<open>Complete and consistent assignments\<close>

text \<open>
  \<^verbatim>\<open>assignment_complete\<close>: false as soon as a key of \<^verbatim>\<open>self.domains\<close> is missing
  from the assignment (the \<^verbatim>\<open>KeyError\<close> is caught).
\<close>

definition assignment_complete :: "creator \<Rightarrow> assignment \<Rightarrow> bool" where
  "assignment_complete c a = list_all (\<lambda>spot. map_of a spot \<noteq> None) (map fst (domains c))"

text \<open>
  The inner loop of \<^verbatim>\<open>consistent\<close> over the neighbours \<^verbatim>\<open>layer\<close> of \<^verbatim>\<open>word\<close>
  that are not in \<^verbatim>\<open>temp\<close>; \<open>value\<close> is \<^verbatim>\<open>assignment[word]\<close>. The comparison
  \<^verbatim>\<open>assignment[word][i] != assignment[layer][j]\<close> evaluates its left side first.
\<close>

fun consistent_layers ::
  "crossword \<Rightarrow> assignment \<Rightarrow> variable \<Rightarrow> string \<Rightarrow> variable list \<Rightarrow> py_error + bool" where
  "consistent_layers cw a word value [] = Inr True"
| "consistent_layers cw a word value (layer # layers) =
     (case overlaps cw word layer of
        None \<Rightarrow> Inl TypeError
      | Some (i, j) \<Rightarrow>
          if \<not> i < length value then Inl IndexError
          else (case map_of a layer of
                  None \<Rightarrow> Inl KeyError
                | Some lvalue \<Rightarrow>
                    if \<not> j < length lvalue then Inl IndexError
                    else if value ! i \<noteq> lvalue ! j then Inr False
                    else consistent_layers cw a word value layers))"

text \<open>
  The loop of \<^verbatim>\<open>consistent\<close> over the entries of the assignment, in the order of
  the dictionary; \<open>done\<close> is the dictionary \<^verbatim>\<open>done\<close> from words to variables.
\<close>

fun consistent_loop ::
  "creator \<Rightarrow> assignment \<Rightarrow> (string \<times> variable) list \<Rightarrow> assignment \<Rightarrow> py_error + bool" where
  "consistent_loop c a done [] = Inr True"
| "consistent_loop c a done ((word, value) # rest) =
     (if var_length word \<noteq> length value then Inr False
      else if map_of done value \<noteq> None then Inr False
      else
        (let temp = filter (\<lambda>x. map_of a x = None) (map fst (domains c)) in
         case consistent_layers (crossword c) a word value
                (filter (\<lambda>x. x \<notin> set temp) (neighbors (crossword c) word)) of
           Inl e \<Rightarrow> Inl e
         | Inr ok \<Rightarrow>
             if \<not> ok then Inr False
             else consistent_loop c a (AList.update value word done) rest))"

text \<open>
  \<^verbatim>\<open>consistent(assignment)\<close>. The argument is \<^verbatim>\<open>None\<close> when \<^verbatim>\<open>backtrack\<close> passes
  on the result of a failed recursive call; iterating over \<^verbatim>\<open>None\<close> raises
  \<^verbatim>\<open>TypeError\<close>.
\<close>

definition consistent :: "creator \<Rightarrow> assignment option \<Rightarrow> py_error + bool" where
  "consistent c assignment =
     (case assignment of
        None \<Rightarrow> Inl TypeError
      | Some a \<Rightarrow> consistent_loop c a [] a)"

section \<open>Heuristics\<close>

text \<open>
  The inner loop of \<^verbatim>\<open>sort\<close>: the number of words \<^verbatim>\<open>val\<close> of a neighbour's domain
  with \<^verbatim>\<open>word[i] != val[j]\<close>.
\<close>

fun sort_inner :: "nat \<Rightarrow> nat \<Rightarrow> string \<Rightarrow> string list \<Rightarrow> py_error + nat" where
  "sort_inner i j word [] = Inr 0"
| "sort_inner i j word (val # vals) =
     (if i < length word \<and> j < length val
      then (case sort_inner i j word vals of
              Inl e \<Rightarrow> Inl e
            | Inr num \<Rightarrow> Inr (if word ! i \<noteq> val ! j then num + 1 else num))
      else Inl IndexError)"

fun sort_outer :: "creator \<Rightarrow> string \<Rightarrow> variable \<Rightarrow> variable list \<Rightarrow> py_error + nat" where
  "sort_outer c word var [] = Inr 0"
| "sort_outer c word var (match # matches) =
     (case overlaps (crossword c) var match of
        None \<Rightarrow> Inl TypeError
      | Some (i, j) \<Rightarrow>
          (case map_of (domains c) match of
             None \<Rightarrow> Inl KeyError
           | Some vals \<Rightarrow>
               (case sort_inner i j word vals of
                  Inl e \<Rightarrow> Inl e
                | Inr num \<Rightarrow>
                    (case sort_outer c word var matches of
                       Inl e \<Rightarrow> Inl e
                     | Inr num' \<Rightarrow> Inr (num + num')))))"

text \<open>\<^verbatim>\<open>sort(word, var)\<close>, the key of \<^verbatim>\<open>order_domain_values\<close>.\<close>

definition sort_num :: "creator \<Rightarrow> string \<Rightarrow> variable \<Rightarrow> py_error + nat" where
  "sort_num c word var = sort_outer c word var (neighbors (crossword c) var)"

text \<open>
  The keys of all words are computed first, in the order of the list; the first
  exception ends the call.
\<close>

fun sort_keys :: "creator \<Rightarrow> variable \<Rightarrow> string list \<Rightarrow> py_error + (nat \<times> string) list" where
  "sort_keys c var [] = Inr []"
| "sort_keys c var (x # xs) =
     (case sort_num c x var of
        Inl e \<Rightarrow> Inl e
      | Inr num \<Rightarrow>
          (case sort_keys c var xs of
             Inl e \<Rightarrow> Inl e
           | Inr keyed \<Rightarrow> Inr ((num, x) # keyed)))"

text \<open>
  \<^verbatim>\<open>order_domain_values\<close>: \<^verbatim>\<open>list.sort\<close> is stable, as \<^const>\<open>sort_key\<close> is. The
  variable is \<^verbatim>\<open>None\<close> when \<^verbatim>\<open>select_unassigned_variable\<close> found none, and
  \<^verbatim>\<open>self.domains[None]\<close> raises \<^verbatim>\<open>KeyError\<close>.
\<close>

definition order_domain_values ::
  "creator \<Rightarrow> variable option \<Rightarrow> assignment \<Rightarrow> py_error + string list" where
  "order_domain_values c var assignment =
     (case var of
        None \<Rightarrow> Inl KeyError
      | Some v \<Rightarrow>
          (case map_of (domains c) v of
             None \<Rightarrow> Inl KeyError
           | Some ordered \<Rightarrow>
               (case sort_keys c v ordered of
                  Inl e \<Rightarrow> Inl e
                | Inr keyed \<Rightarrow> Inr (map snd (sort_key fst keyed)))))"

text \<open>
  The loop of \<^verbatim>\<open>select_unassigned_variable\<close>. An option is an entry of
  \<^verbatim>\<open>self.domains\<close>: the variable and its domain, whose length is \<^verbatim>\<open>comp\<close>.
  \<^verbatim>\<open>neighbors\<close> returns sets, and \<^verbatim>\<open>>\<close> on Python sets is the proper superset.
\<close>

fun select_loop ::
  "crossword \<Rightarrow> variable \<Rightarrow> nat \<Rightarrow> (variable \<times> string list) list \<Rightarrow> variable" where
  "select_loop cw min_var minval [] = min_var"
| "select_loop cw min_var minval ((option, ws) # options) =
     (let comp = length ws in
      if comp = minval then
        (if set (neighbors cw min_var) \<subset> set (neighbors cw option)
         then select_loop cw option comp options
         else select_loop cw min_var minval options)
      else if comp < minval then select_loop cw option comp options
      else select_loop cw min_var minval options)"

definition select_unassigned_variable :: "creator \<Rightarrow> assignment \<Rightarrow> variable option" where
  "select_unassigned_variable c assignment =
     (case filter (\<lambda>(x, ws). map_of assignment x = None) (domains c) of
        [] \<Rightarrow> None
      | (min_var, ws) # options \<Rightarrow> Some (select_loop (crossword c) min_var (length ws) options))"

section \<open>Backtracking search\<close>

text \<open>\<^verbatim>\<open>assignment.pop(var)\<close> raises \<^verbatim>\<open>KeyError\<close> when the key is missing.\<close>

definition pop :: "assignment \<Rightarrow> variable \<Rightarrow> py_error + assignment" where
  "pop a var = (if map_of a var = None then Inl KeyError else Inr (AList.delete var a))"

text \<open>
  The measures of the search: the number of keys of \<^verbatim>\<open>self.domains\<close> without a
  word, and the same number with one variable left out.
\<close>

definition unassigned :: "creator \<Rightarrow> assignment \<Rightarrow> nat" where
  "unassigned c a = length (filter (\<lambda>k. map_of a k = None) (map fst (domains c)))"

definition unassigned_but :: "creator \<Rightarrow> assignment \<Rightarrow> variable \<Rightarrow> nat" where
  "unassigned_but c a var =
     length (filter (\<lambda>k. k \<noteq> var \<and> map_of a k = None) (map fst (domains c)))"

lemma select_loop_mem:
  "select_loop cw m n options = m \<or> select_loop cw m n options \<in> fst ` set options"
proof (induction options arbitrary: m n)
  case Nil
  show ?case by simp
next
  case (Cons p options)
  obtain v ws where p: "p = (v, ws)" by (cases p)
  from Cons.IH [of m n] Cons.IH [of v "length ws"] show ?case
    unfolding p by (simp add: Let_def) blast
qed

lemma select_unassigned_variable_Some:
  assumes "select_unassigned_variable c a = Some var"
  shows "var \<in> fst ` set (domains c)" and "map_of a var = None"
proof -
  let ?opts = "filter (\<lambda>(x, ws). map_of a x = None) (domains c)"
  from assms obtain m ws options where opts: "?opts = (m, ws) # options"
    and var: "var = select_loop (crossword c) m (length ws) options"
    by (auto simp: select_unassigned_variable_def split: list.splits)
  from select_loop_mem [of "crossword c" m "length ws" options] var opts
  have "var \<in> fst ` set ?opts" by auto
  then show "var \<in> fst ` set (domains c)" and "map_of a var = None" by auto
qed

function (domintros) backtrack :: "creator \<Rightarrow> assignment \<Rightarrow> py_error + (assignment option \<times> assignment)"
  and backtrack_loop ::
    "creator \<Rightarrow> assignment \<Rightarrow> variable \<Rightarrow> string list \<Rightarrow>
       py_error + (assignment option \<times> assignment)" where
  "backtrack c a =
     (if assignment_complete c a then Inr (Some a, a)
      else
        (let var = select_unassigned_variable c a in
         case order_domain_values c var a of
           Inl e \<Rightarrow> Inl e
         | Inr vals \<Rightarrow> backtrack_loop c a (the var) vals))"
| "backtrack_loop c a var [] = Inr (None, a)"
| "backtrack_loop c a var (value # vals) =
     (let a1 = AList.update var value a in
      case consistent c (Some a1) of
        Inl e \<Rightarrow> Inl e
      | Inr ok \<Rightarrow>
          if ok then
            (case backtrack c a1 of
               Inl e \<Rightarrow> Inl e
             | Inr (result, a2) \<Rightarrow>
                 (case consistent c result of
                    Inl e \<Rightarrow> Inl e
                  | Inr ok' \<Rightarrow>
                      if ok' then Inr (result, a2)
                      else (case pop a2 var of
                              Inl e \<Rightarrow> Inl e
                            | Inr a3 \<Rightarrow> backtrack_loop c a3 var vals)))
          else (case pop a1 var of
                  Inl e \<Rightarrow> Inl e
                | Inr a3 \<Rightarrow> backtrack_loop c a3 var vals))"
  by pat_completeness auto


lemma keys_delete: "fst ` set (AList.delete k al) = fst ` set al - {k}"
proof -
  have "set (map fst (AList.delete k al)) = set (map fst al) - {k}"
    by (simp only: delete_keys set_removeAll)
  then show ?thesis by simp
qed

lemma pop_Inr: "pop a var = Inr a3 \<Longrightarrow> a3 = AList.delete var a \<and> map_of a var \<noteq> None"
  by (simp add: pop_def split: if_splits)

lemma backtrack_keys_partial:
  "backtrack_backtrack_loop_dom (Inl (c, a)) \<Longrightarrow> backtrack c a = Inr (res, a') \<Longrightarrow>
     fst ` set a \<subseteq> fst ` set a'"
  "backtrack_backtrack_loop_dom (Inr (c, a, var, vals)) \<Longrightarrow>
     backtrack_loop c a var vals = Inr (res, a') \<Longrightarrow> fst ` set a - {var} \<subseteq> fst ` set a'"
proof (induction c a and c a var vals arbitrary: res a' and res a'
    rule: backtrack_backtrack_loop.pinduct)
  case (1 c a)
  note eq = backtrack.psimps [OF "1.hyps"]
  show ?case
  proof (cases "assignment_complete c a")
    case True
    with "1.prems" show ?thesis by (simp add: eq)
  next
    case False
    let ?x = "select_unassigned_variable c a"
    from "1.prems" False obtain vals where od: "order_domain_values c ?x a = Inr vals"
      by (cases "order_domain_values c ?x a") (simp_all add: eq)
    with "1.prems" False have bl: "backtrack_loop c a (the ?x) vals = Inr (res, a')"
      by (simp add: eq)
    from od obtain var where x: "?x = Some var"
      by (cases ?x) (simp_all add: order_domain_values_def)
    from select_unassigned_variable_Some(2) [OF x] have "var \<notin> fst ` set a"
      by (simp add: map_of_eq_None_iff)
    with "1.IH" [OF False refl od bl] x show ?thesis by auto
  qed
next
  case (2 c a var)
  then show ?case by (simp add: backtrack_loop.psimps)
next
  case (3 c a var v vals)
  let ?a1 = "AList.update var v a"
  note eq = backtrack_loop.psimps(2) [OF "3.hyps"]
  have keys1: "fst ` set ?a1 = {var} \<union> fst ` set a" by (rule dom_update)
  from "3.prems" obtain b where cb: "consistent c (Some ?a1) = Inr b"
    by (cases "consistent c (Some ?a1)") (simp_all add: eq)
  show ?case
  proof (cases b)
    case b: True
    from "3.prems" cb b obtain result a2 where bt: "backtrack c ?a1 = Inr (result, a2)"
      by (cases "backtrack c ?a1") (auto simp: eq)
    from "3.IH"(1) [OF refl cb b bt] have sub1: "fst ` set ?a1 \<subseteq> fst ` set a2" .
    from "3.prems" cb b bt obtain b' where cb': "consistent c result = Inr b'"
      by (cases "consistent c result") (simp_all add: eq)
    show ?thesis
    proof (cases b')
      case True
      with "3.prems" cb b bt cb' have "a' = a2" by (simp add: eq)
      with sub1 keys1 show ?thesis by auto
    next
      case b': False
      from "3.prems" cb b bt cb' b' obtain a3 where p: "pop a2 var = Inr a3"
        by (cases "pop a2 var") (simp_all add: eq)
      with "3.prems" cb b bt cb' b' have bl: "backtrack_loop c a3 var vals = Inr (res, a')"
        by (simp add: eq)
      from "3.IH"(2) [OF refl cb b bt refl cb' b' p bl]
      have sub3: "fst ` set a3 - {var} \<subseteq> fst ` set a'" .
      from pop_Inr [OF p] have "fst ` set a3 = fst ` set a2 - {var}"
        by (simp add: keys_delete)
      with sub3 have "fst ` set a2 - {var} \<subseteq> fst ` set a'" by simp
      moreover from sub1 keys1 have "fst ` set a \<subseteq> fst ` set a2" by simp
      ultimately show ?thesis by (rule_tac subsetI) (simp only: Diff_iff subset_iff, blast)
    qed
  next
    case b: False
    from "3.prems" cb b obtain a3 where p: "pop ?a1 var = Inr a3"
      by (cases "pop ?a1 var") (simp_all add: eq)
    with "3.prems" cb b have bl: "backtrack_loop c a3 var vals = Inr (res, a')"
      by (simp add: eq)
    from "3.IH"(3) [OF refl cb b p bl]
    have sub3: "fst ` set a3 - {var} \<subseteq> fst ` set a'" .
    from pop_Inr [OF p] have "fst ` set a3 = fst ` set ?a1 - {var}"
      by (simp add: keys_delete)
    with sub3 keys1 show ?thesis by auto
  qed
qed


lemma length_filter_mono:
  "(\<And>x. x \<in> set xs \<Longrightarrow> P x \<Longrightarrow> Q x) \<Longrightarrow> length (filter P xs) \<le> length (filter Q xs)"
  by (induction xs) auto

lemma length_filter_strict:
  "(\<And>x. x \<in> set xs \<Longrightarrow> P x \<Longrightarrow> Q x) \<Longrightarrow> y \<in> set xs \<Longrightarrow> Q y \<Longrightarrow> \<not> P y \<Longrightarrow>
     length (filter P xs) < length (filter Q xs)"
proof (induction xs)
  case Nil
  then show ?case by simp
next
  case (Cons x xs)
  have mono: "length (filter P xs) \<le> length (filter Q xs)"
    by (rule length_filter_mono) (simp add: Cons.prems(1))
  show ?case
  proof (cases "x = y")
    case True
    with Cons.prems mono show ?thesis by simp
  next
    case False
    with Cons.prems have "y \<in> set xs" by simp
    with Cons.IH Cons.prems have "length (filter P xs) < length (filter Q xs)" by simp
    with Cons.prems(1) [of x] show ?thesis by auto
  qed
qed

lemma unassigned_but_less:
  assumes "var \<in> fst ` set (domains c)" and "map_of a var = None"
  shows "unassigned_but c a var < unassigned c a"
  unfolding unassigned_but_def unassigned_def
  by (rule length_filter_strict [where y = var]) (use assms in simp_all)

lemma unassigned_update: "unassigned c (AList.update var v a) = unassigned_but c a var"
proof -
  have "(\<lambda>k. map_of (AList.update var v a) k = None) = (\<lambda>k. k \<noteq> var \<and> map_of a k = None)"
    by (rule ext) (simp add: update_conv')
  then show ?thesis by (simp only: unassigned_def unassigned_but_def)
qed

lemma unassigned_but_mono:
  assumes "fst ` set a - {var} \<subseteq> fst ` set a'"
  shows "unassigned_but c a' var \<le> unassigned_but c a var"
  unfolding unassigned_but_def
proof (rule length_filter_mono)
  fix k
  assume "k \<noteq> var \<and> map_of a' k = None"
  then have "k \<noteq> var" and "k \<notin> fst ` set a'" by (simp_all add: map_of_eq_None_iff)
  with assms have "k \<notin> fst ` set a" by blast
  with \<open>k \<noteq> var\<close> show "k \<noteq> var \<and> map_of a k = None" by (simp add: map_of_eq_None_iff)
qed

lemma keys_back1:
  fixes A :: "'a set"
  shows "X \<subseteq> A2 \<Longrightarrow> X = {v} \<union> A \<Longrightarrow> A3 = A2 - {v} \<Longrightarrow> A - {v} \<subseteq> A3"
  by auto

lemma keys_back2:
  fixes A :: "'a set"
  shows "X = {v} \<union> A \<Longrightarrow> A3 = X - {v} \<Longrightarrow> A - {v} \<subseteq> A3"
  by auto

lemma order_domain_values_Inr:
  "order_domain_values c x a = Inr vals \<Longrightarrow> \<exists>var. x = Some var"
  by (cases x) (simp_all add: order_domain_values_def)

termination backtrack
proof (relation "inv_image (less_than <*lex*> less_than <*lex*> less_than)
    (\<lambda>x. case x of Inl (c, a) \<Rightarrow> (unassigned c a, 0, 0)
                | Inr (c, a, var, vals) \<Rightarrow> (unassigned_but c a var, 1, length vals))",
    goal_cases)
  case 1
  show ?case by (intro wf_inv_image wf_lex_prod wf_less_than)
next
  case (2 c a x vals)
  from order_domain_values_Inr [OF 2(3)] obtain var where x: "x = Some var" ..
  with 2(2) have "select_unassigned_variable c a = Some var" by simp
  from select_unassigned_variable_Some [OF this]
  have "unassigned_but c a var < unassigned c a" by (rule unassigned_but_less)
  with x show ?case by simp
next
  case (3 c a var v vals x b)
  then show ?case by (simp add: unassigned_update)
next
  case (4 c a var v vals x b ba result a2 b' a3)
  from 4(4,5) have bt: "backtrack c x = Inr (result, a2)" by simp
  from backtrack_keys_partial(1) [OF 4(9) bt] have "fst ` set x \<subseteq> fst ` set a2" .
  moreover have "fst ` set x = {var} \<union> fst ` set a" unfolding 4(1) by (rule dom_update)
  moreover from pop_Inr [OF 4(8)] have "fst ` set a3 = fst ` set a2 - {var}"
    by (simp add: keys_delete)
  ultimately have "fst ` set a - {var} \<subseteq> fst ` set a3" by (rule keys_back1)
  from le_imp_less_or_eq [OF unassigned_but_mono [OF this, of c]] show ?case by simp
next
  case (5 c a var v vals x b a3)
  have "fst ` set x = {var} \<union> fst ` set a" unfolding 5(1) by (rule dom_update)
  moreover from pop_Inr [OF 5(4)] have "fst ` set a3 = fst ` set x - {var}"
    by (simp add: keys_delete)
  ultimately have "fst ` set a - {var} \<subseteq> fst ` set a3" by (rule keys_back2)
  from le_imp_less_or_eq [OF unassigned_but_mono [OF this, of c]] show ?case by simp
qed

section \<open>Solving\<close>

text \<open>
  \<^verbatim>\<open>solve\<close>: node consistency, arc consistency (the result of \<^verbatim>\<open>ac3\<close> is not
  looked at), then the search from the empty assignment. The creator after the call
  is returned with the result.
\<close>

definition solve :: "creator \<Rightarrow> py_error + (assignment option \<times> creator)" where
  "solve c =
     (case ac3 (enforce_node_consistency c) None of
        Inl e \<Rightarrow> Inl e
      | Inr (ok, c') \<Rightarrow>
          (case backtrack c' [] of
             Inl e \<Rightarrow> Inl e
           | Inr (result, a) \<Rightarrow> Inr (result, c')))"

section \<open>Two small grids\<close>

text \<open>
  A grid of two crossing slots: \<open>slot_a\<close> runs across the second row, \<open>slot_b\<close> runs
  down the first column; the first letter of \<open>slot_a\<close> is the second of \<open>slot_b\<close>.
\<close>

definition slot_a :: variable where
  "slot_a = \<lparr>var_i = 1, var_j = 0, var_direction = ACROSS, var_length = 3\<rparr>"

definition slot_b :: variable where
  "slot_b = \<lparr>var_i = 0, var_j = 0, var_direction = DOWN, var_length = 3\<rparr>"

definition grid2 :: "string list \<Rightarrow> crossword" where
  "grid2 ws =
     \<lparr>variables = [slot_a, slot_b], words = ws,
      overlaps = (\<lambda>x y. if x = slot_a \<and> y = slot_b then Some (0, 1)
                        else if x = slot_b \<and> y = slot_a then Some (1, 0) else None),
      neighbors = (\<lambda>x. if x = slot_a then [slot_b] else if x = slot_b then [slot_a] else [])\<rparr>"

text \<open>
  A grid of three slots: \<open>slot_x\<close> runs across the first row, \<open>slot_y\<close> down the first
  column and \<open>slot_z\<close> down the third column. \<open>slot_x\<close> crosses both others at their
  first letters; \<open>slot_y\<close> and \<open>slot_z\<close> do not meet.
\<close>

definition slot_x :: variable where
  "slot_x = \<lparr>var_i = 0, var_j = 0, var_direction = ACROSS, var_length = 3\<rparr>"

definition slot_y :: variable where
  "slot_y = \<lparr>var_i = 0, var_j = 0, var_direction = DOWN, var_length = 3\<rparr>"

definition slot_z :: variable where
  "slot_z = \<lparr>var_i = 0, var_j = 2, var_direction = DOWN, var_length = 3\<rparr>"

definition grid3 :: "variable list \<Rightarrow> string list \<Rightarrow> crossword" where
  "grid3 vs ws =
     \<lparr>variables = vs, words = ws,
      overlaps = (\<lambda>x y. if x = slot_x \<and> y = slot_y then Some (0, 0)
                        else if x = slot_y \<and> y = slot_x then Some (0, 0)
                        else if x = slot_x \<and> y = slot_z then Some (2, 0)
                        else if x = slot_z \<and> y = slot_x then Some (0, 2) else None),
      neighbors = (\<lambda>x. if x = slot_x then [slot_y, slot_z]
                       else if x = slot_y then [slot_x]
                       else if x = slot_z then [slot_x] else [])\<rparr>"

section \<open>Domains are only pruned\<close>

lemma ac3_Inr:
  assumes "ac3 c arcs = Inr (ok, c')"
  shows "ac3_loop c (case arcs of None \<Rightarrow> initial_arcs c | Some q \<Rightarrow> q) = Inr c'"
    and "ok \<longleftrightarrow> \<not> list_ex (\<lambda>(value, ws). length ws = 0) (domains c')"
  using assms by (auto simp: ac3_def split: sum.splits)

lemma revise_domains:
  assumes "revise c x y = Inr (revised, c')"
  obtains dx i j where "map_of (domains c) x = Some dx"
    and "overlaps (crossword c) x y = Some (i, j)"
    and "domains c' = AList.update x
           (filter (\<lambda>w. \<exists>v \<in> set (the (map_of (domains c) y)). w ! i = v ! j) dx) (domains c)"
    and "crossword c' = crossword c"
    and "revised \<longleftrightarrow> \<not> (\<forall>w \<in> set dx. \<exists>v \<in> set (the (map_of (domains c) y)). w ! i = v ! j)"
proof -
  from assms obtain dx i j xval where dx: "map_of (domains c) x = Some dx"
    and ov: "overlaps (crossword c) x y = Some (i, j)"
    and rl: "revise_loop i j dx (map_of (domains c) y) = Inr (revised, xval)"
    and c': "c' = c\<lparr>domains := AList.update x xval (domains c)\<rparr>"
    by (rule revise_Inr)
  from revise_loop_Inr [OF rl]
  have xv: "xval = filter (\<lambda>w. \<exists>v \<in> set (the (map_of (domains c) y)). w ! i = v ! j) dx"
    and r: "revised \<longleftrightarrow> xval \<noteq> dx" by simp_all
  from r have "revised \<longleftrightarrow> \<not> (\<forall>w \<in> set dx. \<exists>v \<in> set (the (map_of (domains c) y)). w ! i = v ! j)"
    unfolding xv by (simp only: filter_id_conv)
  with dx ov xv c' show thesis by (intro that [of dx i j]) simp_all
qed

text \<open>
  A domain store is pruned from another one when it has the same keys in the same
  order and every domain is a subset of the domain it had.
\<close>

definition pruned_from :: "domain_store \<Rightarrow> domain_store \<Rightarrow> bool" where
  "pruned_from d' d \<longleftrightarrow>
     map fst d' = map fst d \<and>
     (\<forall>s ws. map_of d s = Some ws \<longrightarrow> (\<exists>ws'. map_of d' s = Some ws' \<and> set ws' \<subseteq> set ws))"

lemma pruned_from_refl: "pruned_from d d"
  by (simp add: pruned_from_def)

lemma pruned_from_trans:
  assumes "pruned_from d3 d2" and "pruned_from d2 d1"
  shows "pruned_from d3 d1"
  unfolding pruned_from_def
proof (intro conjI allI impI)
  from assms show "map fst d3 = map fst d1" by (simp add: pruned_from_def)
next
  fix s ws
  assume "map_of d1 s = Some ws"
  with assms(2) obtain ws2 where 2: "map_of d2 s = Some ws2" "set ws2 \<subseteq> set ws"
    unfolding pruned_from_def by blast
  with assms(1) obtain ws3 where 3: "map_of d3 s = Some ws3" "set ws3 \<subseteq> set ws2"
    unfolding pruned_from_def by blast
  from 2 3 show "\<exists>ws'. map_of d3 s = Some ws' \<and> set ws' \<subseteq> set ws" by auto
qed

lemma pruned_from_update:
  assumes "map_of d x = Some dx" and "set xval \<subseteq> set dx"
  shows "pruned_from (AList.update x xval d) d"
  unfolding pruned_from_def
proof (intro conjI allI impI)
  from assms(1) have "x \<in> set (map fst d)" by (auto dest: map_of_SomeD intro: rev_image_eqI)
  then show "map fst (AList.update x xval d) = map fst d" by (simp add: update_keys)
next
  fix s ws
  assume "map_of d s = Some ws"
  with assms show "\<exists>ws'. map_of (AList.update x xval d) s = Some ws' \<and> set ws' \<subseteq> set ws"
    by (cases "s = x") (simp_all add: update_conv')
qed

lemma revise_pruned:
  assumes "revise c x y = Inr (revised, c')"
  shows "pruned_from (domains c') (domains c)"
proof -
  from assms obtain dx i j where dx: "map_of (domains c) x = Some dx"
    and d': "domains c' = AList.update x
           (filter (\<lambda>w. \<exists>v \<in> set (the (map_of (domains c) y)). w ! i = v ! j) dx) (domains c)"
    by (rule revise_domains)
  show ?thesis unfolding d' by (rule pruned_from_update [OF dx]) simp
qed

lemma ac3_loop_pruned:
  "ac3_loop c arcs = Inr c' \<Longrightarrow> pruned_from (domains c') (domains c)"
proof (induction c arcs rule: ac3_loop.induct)
  case (1 c)
  then show ?case by (simp add: pruned_from_refl)
next
  case (2 c arc arcs)
  obtain v p where arc: "arc = (v, p)" by (cases arc)
  from "2.prems" obtain c1 arcs1 where body: "ac3_body c arc arcs = Inr (c1, arcs1)"
    and loop: "ac3_loop c1 arcs1 = Inr c'"
    by (cases "ac3_body c arc arcs") auto
  from body arc obtain result where "revise c v p = Inr (result, c1)"
    by (auto elim: ac3_body_Inr)
  then have "pruned_from (domains c1) (domains c)" by (rule revise_pruned)
  moreover from "2.IH" [OF body refl loop] have "pruned_from (domains c') (domains c1)" .
  ultimately show ?case by (rule pruned_from_trans [rotated])
qed

lemma enforce_node_consistency_map_of:
  "map_of (map (\<lambda>(variable, ws). (variable, filter (\<lambda>word. length word = var_length variable) ws)) d) s =
     map_option (filter (\<lambda>word. length word = var_length s)) (map_of d s)"
  by (induction d) auto

lemma enforce_node_consistency_pruned:
  "pruned_from (domains (enforce_node_consistency c)) (domains c)"
  unfolding pruned_from_def
proof (intro conjI allI impI)
  show "map fst (domains (enforce_node_consistency c)) = map fst (domains c)"
    by (simp add: enforce_node_consistency_def case_prod_beta comp_def)
next
  fix s ws
  assume "map_of (domains c) s = Some ws"
  then show "\<exists>ws'. map_of (domains (enforce_node_consistency c)) s = Some ws' \<and> set ws' \<subseteq> set ws"
    by (simp add: enforce_node_consistency_def enforce_node_consistency_map_of)
qed

lemma list_ex_empty_domain:
  "list_ex (\<lambda>(value, ws). length ws = 0) d \<longleftrightarrow> (\<exists>(value, ws) \<in> set d. ws = [])"
  by (induction d) auto

text \<open>
  Claim C9: when \<^verbatim>\<open>ac3\<close> returns, its queue has run empty, and it returns false if
  the domain of some slot is empty then, and true if every domain has a word.
\<close>

theorem ac3_result:
  "ac3 c arcs = Inr (ok, c') \<Longrightarrow>
     ac3_loop c (case arcs of None \<Rightarrow> initial_arcs c | Some q \<Rightarrow> q) = Inr c' \<and>
     (ok \<longleftrightarrow> (\<forall>(value, ws) \<in> set (domains c'). ws \<noteq> []))"
proof -
  assume r: "ac3 c arcs = Inr (ok, c')"
  from ac3_Inr(2) [OF r] have "ok \<longleftrightarrow> (\<forall>(value, ws) \<in> set (domains c'). ws \<noteq> [])"
    by (simp only: list_ex_empty_domain) blast
  with ac3_Inr(1) [OF r] show ?thesis by simp
qed

text \<open>
  The two-slot grid with a pool in which no two words agree where the slots cross:
  arc consistency empties both domains.
\<close>

definition unsat_before :: creator where
  "unsat_before = enforce_node_consistency (init (grid2 [''ABC'', ''DEF'', ''XY'']))"

definition unsat_after :: creator where
  "unsat_after = unsat_before\<lparr>domains := [(slot_a, []), (slot_b, [])]\<rparr>"

lemma slots_distinct [simp]:
  "slot_a \<noteq> slot_b" "slot_b \<noteq> slot_a"
  "slot_x \<noteq> slot_y" "slot_y \<noteq> slot_x" "slot_x \<noteq> slot_z" "slot_z \<noteq> slot_x"
  "slot_y \<noteq> slot_z" "slot_z \<noteq> slot_y"
  by (simp_all add: slot_a_def slot_b_def slot_x_def slot_y_def slot_z_def)

lemma slot_lengths [simp]:
  "var_length slot_a = 3" "var_length slot_b = 3"
  "var_length slot_x = 3" "var_length slot_y = 3" "var_length slot_z = 3"
  by (simp_all add: slot_a_def slot_b_def slot_x_def slot_y_def slot_z_def)

lemma unsat_before_eq:
  "unsat_before = \<lparr>crossword = grid2 [''ABC'', ''DEF'', ''XY''],
      domains = [(slot_a, [''ABC'', ''DEF'']), (slot_b, [''ABC'', ''DEF''])]\<rparr>"
  by (simp add: unsat_before_def enforce_node_consistency_def init_def grid2_def)

lemma ac3_unsat: "ac3 unsat_before None = Inr (False, unsat_after)"
  by (simp add: unsat_after_def unsat_before_eq ac3_def initial_arcs_def ac3_body_def revise_def
      grid2_def)

theorem ac3_result_witness:
  "ac3 unsat_before None = Inr (False, unsat_after) \<and>
   ac3_loop unsat_before (initial_arcs unsat_before) = Inr unsat_after \<and>
   (slot_a, []) \<in> set (domains unsat_after)"
proof -
  from ac3_result [OF ac3_unsat]
  have "ac3_loop unsat_before (initial_arcs unsat_before) = Inr unsat_after" by simp
  with ac3_unsat show ?thesis by (simp add: unsat_after_def)
qed

text \<open>
  Claim C8: domains are pruned and never regrown. After \<^verbatim>\<open>enforce_node_consistency\<close>,
  and after \<^verbatim>\<open>ac3\<close> when it returns, the store has the slots it had, and the domain
  of every slot is a subset of its domain before the call.
\<close>

theorem domains_only_pruned:
  "pruned_from (domains (enforce_node_consistency c)) (domains c) \<and>
   (ac3 c arcs = Inr (ok, c') \<longrightarrow> pruned_from (domains c') (domains c))"
proof (intro conjI impI)
  show "pruned_from (domains (enforce_node_consistency c)) (domains c)"
    by (rule enforce_node_consistency_pruned)
next
  assume "ac3 c arcs = Inr (ok, c')"
  then have "ac3_loop c (case arcs of None \<Rightarrow> initial_arcs c | Some q \<Rightarrow> q) = Inr c'"
    by (rule ac3_Inr(1))
  then show "pruned_from (domains c') (domains c)" by (rule ac3_loop_pruned)
qed

theorem domains_only_pruned_witness:
  "ac3 unsat_before None = Inr (False, unsat_after) \<and>
   pruned_from (domains (enforce_node_consistency unsat_before)) (domains unsat_before) \<and>
   pruned_from (domains unsat_after) (domains unsat_before)"
  using domains_only_pruned [where c = unsat_before and arcs = None and ok = False
      and c' = unsat_after] ac3_unsat
  by simp

section \<open>The queue of arcs\<close>

lemma crossword_revise:
  "revise c x y = Inr (revised, c') \<Longrightarrow> crossword c' = crossword c"
  by (erule revise_domains)

text \<open>
  Claim C5, as the code has it: after \<^verbatim>\<open>revise(x, y)\<close> has pruned the domain of
  \<^verbatim>\<open>x\<close>, the arcs put on the queue are the pairs \<^verbatim>\<open>(z, x)\<close> for every neighbour
  \<^verbatim>\<open>z\<close> of \<^verbatim>\<open>x\<close>, the neighbour \<^verbatim>\<open>y\<close> included; when nothing was pruned the
  queue is left as it is.
\<close>

theorem ac3_requeues_all_neighbors:
  "revise c x y = Inr (revised, c') \<Longrightarrow>
     ac3_body c (x, y) arcs =
       Inr (c', if revised then arcs @ map (\<lambda>z. (z, x)) (neighbors (crossword c) x) else arcs)"
  by (frule crossword_revise) (simp add: ac3_body_def)

text \<open>
  A state of the two-slot grid in which \<^verbatim>\<open>revise(slot_a, slot_b)\<close> removes a word.
\<close>

definition prune_before :: creator where
  "prune_before =
     \<lparr>crossword = grid2 [''AAB'', ''CDE''],
      domains = [(slot_a, [''AAB'', ''CDE'']), (slot_b, [''AAB''])]\<rparr>"

definition prune_after :: creator where
  "prune_after = prune_before\<lparr>domains := [(slot_a, [''AAB'']), (slot_b, [''AAB''])]\<rparr>"

lemma revise_prune: "revise prune_before slot_a slot_b = Inr (True, prune_after)"
  by (simp add: prune_before_def prune_after_def revise_def grid2_def)

theorem ac3_requeues_all_neighbors_witness:
  "revise prune_before slot_a slot_b = Inr (True, prune_after) \<and>
   ac3_body prune_before (slot_a, slot_b) [] =
     Inr (prune_after, map (\<lambda>z. (z, slot_a)) (neighbors (crossword prune_before) slot_a))"
  using ac3_requeues_all_neighbors [OF revise_prune, of "[]"] revise_prune by simp

text \<open>
  Claim C5 as it is stated fails in this state: \<^verbatim>\<open>revise(slot_a, slot_b)\<close> prunes,
  the only neighbour of \<open>slot_a\<close> is \<open>slot_b\<close>, so no neighbour other than \<open>slot_b\<close>
  exists, and yet the arc \<^verbatim>\<open>(slot_b, slot_a)\<close> is put on the queue.
\<close>

theorem ac3_requeues_revised_arc:
  "revise prune_before slot_a slot_b = Inr (True, prune_after) \<and>
   neighbors (crossword prune_before) slot_a = [slot_b] \<and>
   ac3_body prune_before (slot_a, slot_b) [] = Inr (prune_after, [(slot_b, slot_a)])"
  by (simp add: ac3_body_def revise_prune) (simp add: prune_before_def prune_after_def grid2_def)

section \<open>Inputs on which the heuristics and the checks fail\<close>

text \<open>
  Claim C6 fails on the three-slot grid when the dictionary of domains lists \<open>slot_y\<close>
  first: all domains have the same size, \<open>slot_x\<close> has two neighbours and \<open>slot_y\<close> one,
  and \<^verbatim>\<open>select_unassigned_variable\<close> returns \<open>slot_y\<close>, because the neighbours of
  \<open>slot_x\<close> are not a proper superset of the neighbours of \<open>slot_y\<close>.
\<close>

theorem select_unassigned_variable_ignores_degree:
  "select_unassigned_variable (init (grid3 [slot_y, slot_x, slot_z] [''ABA'', ''ACE''])) [] =
     Some slot_y \<and>
   map (\<lambda>(v, ws). (v, length ws)) (domains (init (grid3 [slot_y, slot_x, slot_z] [''ABA'', ''ACE'']))) =
     [(slot_y, 2), (slot_x, 2), (slot_z, 2)] \<and>
   card (set (neighbors (grid3 [slot_y, slot_x, slot_z] [''ABA'', ''ACE'']) slot_y)) = 1 \<and>
   card (set (neighbors (grid3 [slot_y, slot_x, slot_z] [''ABA'', ''ACE'']) slot_x)) = 2"
  by (simp add: select_unassigned_variable_def init_def grid3_def psubset_eq)

text \<open>
  Claim C7 fails on the two-slot grid for the assignment of \<^verbatim>\<open>CAT\<close> to \<open>slot_a\<close> and
  of \<^verbatim>\<open>X\<close> to \<open>slot_b\<close>, in this order: the word of \<open>slot_b\<close> is shorter than the
  slot, and \<^verbatim>\<open>consistent\<close> raises \<^verbatim>\<open>IndexError\<close> at the overlap of \<open>slot_a\<close> with
  \<open>slot_b\<close>, before it has compared the length of \<open>slot_b\<close>.
\<close>

theorem consistent_raises_on_short_word:
  "consistent (init (grid2 [''CAT'', ''X''])) (Some [(slot_a, ''CAT''), (slot_b, ''X'')]) =
     Inl IndexError \<and>
   var_length slot_b = 3"
  by (simp add: consistent_def init_def grid2_def)

section \<open>Inputs on which the search raises\<close>

text \<open>
  A satisfying assignment, in the words of the specification: every slot of the grid
  has one word of the pool, of the length of the slot; no word is used twice; and
  the words of two neighbouring slots agree at their overlap.
\<close>

definition satisfying :: "crossword \<Rightarrow> assignment \<Rightarrow> bool" where
  "satisfying cw a \<longleftrightarrow>
     distinct (map fst a) \<and> set (map fst a) = set (variables cw) \<and>
     list_all (\<lambda>(x, w). w \<in> set (words cw) \<and> length w = var_length x) a \<and>
     distinct (map snd a) \<and>
     list_all (\<lambda>(x, w). list_all (\<lambda>(y, w').
         if y \<in> set (neighbors cw x)
         then (case overlaps cw x y of
                 None \<Rightarrow> False
               | Some (i, j) \<Rightarrow> i < length w \<and> j < length w' \<and> w ! i = w' ! j)
         else True) a) a"

definition pool5 :: "string list" where
  "pool5 = [''ABA'', ''ACE'', ''TOP'', ''TEN'', ''PET'']"

lemma satisfying_pool5:
  "satisfying (grid3 [slot_x, slot_y, slot_z] pool5)
     [(slot_x, ''TOP''), (slot_y, ''TEN''), (slot_z, ''PET'')]"
  by (simp add: satisfying_def grid3_def pool5_def)

lemma node_pool5:
  "enforce_node_consistency (init (grid3 [slot_x, slot_y, slot_z] pool5)) =
     \<lparr>crossword = grid3 [slot_x, slot_y, slot_z] pool5,
      domains = [(slot_x, pool5), (slot_y, pool5), (slot_z, pool5)]\<rparr>"
  by (simp add: enforce_node_consistency_def init_def grid3_def pool5_def)

lemma ac3_pool5:
  "ac3 \<lparr>crossword = grid3 [slot_x, slot_y, slot_z] pool5,
        domains = [(slot_x, pool5), (slot_y, pool5), (slot_z, pool5)]\<rparr> None =
     Inr (True, \<lparr>crossword = grid3 [slot_x, slot_y, slot_z] pool5,
        domains = [(slot_x, [''ABA'', ''TOP'', ''PET'']), (slot_y, pool5), (slot_z, pool5)]\<rparr>)"
  by (simp add: ac3_def initial_arcs_def ac3_body_def revise_def grid3_def pool5_def)

lemma backtrack_pool5:
  "backtrack \<lparr>crossword = grid3 [slot_x, slot_y, slot_z] pool5,
        domains = [(slot_x, [''ABA'', ''TOP'', ''PET'']), (slot_y, pool5), (slot_z, pool5)]\<rparr> [] =
     Inl TypeError"
  by (simp add: assignment_complete_def select_unassigned_variable_def order_domain_values_def
      sort_num_def consistent_def pop_def grid3_def pool5_def)


text \<open>
  Claim C1 fails on the three-slot grid with the pool \<^verbatim>\<open>ABA, ACE, TOP, TEN, PET\<close>. The
  assignment of \<^verbatim>\<open>TOP\<close>, \<^verbatim>\<open>TEN\<close>, \<^verbatim>\<open>PET\<close> to the three slots is satisfying, but
  \<^verbatim>\<open>solve\<close> raises \<^verbatim>\<open>TypeError\<close>: the search tries \<^verbatim>\<open>ABA\<close> for \<open>slot_x\<close> first,
  the recursive search below it returns \<^verbatim>\<open>None\<close>, and \<^verbatim>\<open>consistent(None)\<close> raises.
\<close>

theorem solve_raises_though_satisfiable:
  "satisfying (grid3 [slot_x, slot_y, slot_z] pool5)
     [(slot_x, ''TOP''), (slot_y, ''TEN''), (slot_z, ''PET'')] \<and>
   solve (init (grid3 [slot_x, slot_y, slot_z] pool5)) = Inl TypeError"
proof -
  have "solve (init (grid3 [slot_x, slot_y, slot_z] pool5)) = Inl TypeError"
    unfolding solve_def node_pool5
    by (simp only: ac3_pool5 backtrack_pool5 sum.case prod.case)
  with satisfying_pool5 show ?thesis by simp
qed

lemma satisfying_grid2_single:
  "\<not> satisfying (grid2 [w]) a"
proof
  assume sat: "satisfying (grid2 [w]) a"
  then have keys: "set (map fst a) = {slot_a, slot_b}"
    and vals: "list_all (\<lambda>(x, w'). w' \<in> set [w] \<and> length w' = var_length x) a"
    and dist: "distinct (map snd a)"
    by (simp_all add: satisfying_def grid2_def insert_commute)
  from keys obtain wa wb where a: "(slot_a, wa) \<in> set a" and b: "(slot_b, wb) \<in> set a"
    by (force simp: image_iff)
  from vals a b have "wa = w" and "wb = w" by (auto simp: list_all_iff)
  with a b have "(slot_a, w) \<in> set a" "(slot_b, w) \<in> set a" by simp_all
  moreover from dist have "inj_on snd (set a)" by (simp add: distinct_map)
  ultimately have "(slot_a, w) = (slot_b, w)" by (intro inj_onD [of snd "set a"]) simp_all
  then show False by simp
qed

lemma solve_grid2_single: "solve (init (grid2 [''AAB''])) = Inl TypeError"
  by (simp add: solve_def init_def grid2_def enforce_node_consistency_def ac3_def
      initial_arcs_def ac3_body_def revise_def assignment_complete_def
      select_unassigned_variable_def order_domain_values_def sort_num_def consistent_def pop_def)

text \<open>
  Claim C2 fails on the two-slot grid with the pool \<^verbatim>\<open>AAB\<close>: no assignment is
  satisfying, since both slots would hold the only word, and \<^verbatim>\<open>solve\<close> raises
  \<^verbatim>\<open>TypeError\<close> instead of returning \<^verbatim>\<open>None\<close>.
\<close>

theorem solve_raises_when_unsatisfiable:
  "(\<nexists>a. satisfying (grid2 [''AAB'']) a) \<and> solve (init (grid2 [''AAB''])) = Inl TypeError"
  by (simp add: satisfying_grid2_single solve_grid2_single)

text \<open>
  The step of the search behind both: when the assignment with the new word is
  consistent and the recursive call returns \<^verbatim>\<open>None\<close>, the loop passes \<^verbatim>\<open>None\<close> to
  \<^verbatim>\<open>consistent\<close>, which raises \<^verbatim>\<open>TypeError\<close>.
\<close>

lemma backtrack_loop_raises_on_failure:
  assumes "consistent c (Some (AList.update var v a)) = Inr True"
    and "backtrack c (AList.update var v a) = Inr (None, a2)"
  shows "backtrack_loop c a var (v # vals) = Inl TypeError"
  using assms by (simp add: consistent_def)

section \<open>Results of the search\<close>

declare backtrack.simps [simp del]

lemma consistent_None: "consistent c None = Inl TypeError"
  by (simp add: consistent_def)

lemma backtrack_loop_Cons_Inr:
  assumes "backtrack_loop c a var (v # vals) = Inr r"
  obtains (found) result a2 where
      "consistent c (Some (AList.update var v a)) = Inr True"
      "backtrack c (AList.update var v a) = Inr (result, a2)"
      "consistent c result = Inr True" "r = (result, a2)"
  | (retry) result a2 a3 where
      "consistent c (Some (AList.update var v a)) = Inr True"
      "backtrack c (AList.update var v a) = Inr (result, a2)"
      "consistent c result = Inr False" "pop a2 var = Inr a3"
      "backtrack_loop c a3 var vals = Inr r"
  | (skip) a3 where
      "consistent c (Some (AList.update var v a)) = Inr False"
      "pop (AList.update var v a) var = Inr a3"
      "backtrack_loop c a3 var vals = Inr r"
proof -
  let ?a1 = "AList.update var v a"
  from assms obtain b where cb: "consistent c (Some ?a1) = Inr b"
    by (cases "consistent c (Some ?a1)") simp_all
  show thesis
  proof (cases b)
    case b: True
    from assms cb b obtain result a2 where bt: "backtrack c ?a1 = Inr (result, a2)"
      by (cases "backtrack c ?a1") auto
    from assms cb b bt obtain b' where cb': "consistent c result = Inr b'"
      by (cases "consistent c result") simp_all
    show ?thesis
    proof (cases b')
      case True
      with assms cb b bt cb' have "r = (result, a2)" by simp
      with cb b bt cb' True show ?thesis by (intro found) simp_all
    next
      case b': False
      from assms cb b bt cb' b' obtain a3 where p: "pop a2 var = Inr a3"
        by (cases "pop a2 var") simp_all
      with assms cb b bt cb' b' have "backtrack_loop c a3 var vals = Inr r" by simp
      with cb b bt cb' b' p show ?thesis by (intro retry) simp_all
    qed
  next
    case b: False
    from assms cb b obtain a3 where p: "pop ?a1 var = Inr a3"
      by (cases "pop ?a1 var") simp_all
    with assms cb b have "backtrack_loop c a3 var vals = Inr r" by simp
    with cb b p show ?thesis by (intro skip) simp_all
  qed
qed

lemma backtrack_Inr:
  assumes "backtrack c a = Inr r"
  obtains (complete) "assignment_complete c a" "r = (Some a, a)"
  | (search) var vals where "\<not> assignment_complete c a"
      "select_unassigned_variable c a = Some var"
      "order_domain_values c (Some var) a = Inr vals"
      "backtrack_loop c a var vals = Inr r"
proof (cases "assignment_complete c a")
  case True
  with assms show ?thesis by (intro complete) (simp_all add: backtrack.simps)
next
  case False
  let ?x = "select_unassigned_variable c a"
  from assms False obtain vals where od: "order_domain_values c ?x a = Inr vals"
    by (cases "order_domain_values c ?x a") (simp_all add: backtrack.simps)
  with assms False have bl: "backtrack_loop c a (the ?x) vals = Inr r"
    by (simp add: backtrack.simps)
  from order_domain_values_Inr [OF od] obtain var where x: "?x = Some var" ..
  with False od bl show ?thesis by (intro search [of var vals]) simp_all
qed

lemma backtrack_loop_Some_consistent:
  "backtrack_loop c a var vals = Inr (Some r, a') \<Longrightarrow> consistent c (Some r) = Inr True"
proof (induction vals arbitrary: a)
  case Nil
  then show ?case by simp
next
  case (Cons v vals)
  from Cons.prems show ?case
  proof (cases rule: backtrack_loop_Cons_Inr)
    case (found result a2)
    then show ?thesis by simp
  next
    case (retry result a2 a3)
    then show ?thesis by (intro Cons.IH)
  next
    case (skip a3)
    then show ?thesis by (intro Cons.IH)
  qed
qed

lemma backtrack_Some_consistent:
  assumes "backtrack c a = Inr (Some r, a')" and "consistent c (Some a) = Inr True"
  shows "consistent c (Some r) = Inr True"
  using assms(1)
proof (cases rule: backtrack_Inr)
  case complete
  with assms(2) show ?thesis by simp
next
  case (search var vals)
  then show ?thesis by (intro backtrack_loop_Some_consistent)
qed

lemma backtrack_never_inconsistent:
  assumes "consistent c (Some a) = Inr True" and "backtrack c a = Inr (result, a2)"
  shows "consistent c result \<noteq> Inr False"
proof (cases result)
  case None
  then show ?thesis by (simp add: consistent_None)
next
  case (Some r)
  with assms backtrack_Some_consistent [of c a r a2] show ?thesis by simp
qed

lemma pop_update:
  "map_of a var = None \<Longrightarrow> pop (AList.update var v a) var = Inr a"
  by (simp add: pop_def update_conv' delete_update_same map_of_eq_None_iff)

lemma backtrack_loop_None_restores:
  "map_of a var = None \<Longrightarrow> backtrack_loop c a var vals = Inr (None, a') \<Longrightarrow> a' = a"
proof (induction vals)
  case Nil
  then show ?case by simp
next
  case (Cons v vals)
  from Cons.prems(2) show ?case
  proof (cases rule: backtrack_loop_Cons_Inr)
    case (found result a2)
    then show ?thesis by (simp add: consistent_None)
  next
    case (retry result a2 a3)
    with backtrack_never_inconsistent [of c "AList.update var v a" result a2]
    show ?thesis by simp
  next
    case (skip a3)
    with pop_update [OF Cons.prems(1), of v] have "a3 = a" by simp
    with skip Cons.IH Cons.prems(1) show ?thesis by simp
  qed
qed

text \<open>
  Claim C10: when \<^verbatim>\<open>backtrack\<close> returns \<^verbatim>\<open>None\<close>, the dictionary it was given is
  as it was at entry, entries and their order: every entry the loop added was
  removed again.
\<close>

theorem backtrack_None_restores:
  "backtrack c a = Inr (None, a') \<Longrightarrow> a' = a"
proof -
  assume "backtrack c a = Inr (None, a')"
  then show "a' = a"
  proof (cases rule: backtrack_Inr)
    case complete
    then show ?thesis by simp
  next
    case (search var vals)
    from select_unassigned_variable_Some(2) [OF search(2)] search(4)
    show ?thesis by (rule backtrack_loop_None_restores)
  qed
qed

text \<open>
  A state of the two-slot grid in which both domains hold the only word \<^verbatim>\<open>AAB\<close>.
\<close>

definition single_word :: creator where
  "single_word =
     \<lparr>crossword = grid2 [''AAB''], domains = [(slot_a, [''AAB'']), (slot_b, [''AAB''])]\<rparr>"

lemma backtrack_single_word:
  "backtrack single_word [(slot_a, ''AAB'')] = Inr (None, [(slot_a, ''AAB'')])"
  by (simp add: backtrack.simps single_word_def assignment_complete_def
      select_unassigned_variable_def order_domain_values_def sort_num_def consistent_def pop_def
      grid2_def)

theorem backtrack_None_restores_witness:
  "backtrack single_word [(slot_a, ''AAB'')] = Inr (None, [(slot_a, ''AAB'')])"
  using backtrack_None_restores [OF backtrack_single_word] backtrack_single_word by simp

lemma backtrack_Some_complete:
  "backtrack c a = Inr (Some r, a') \<Longrightarrow> assignment_complete c r \<and> a' = r"
  "backtrack_loop c a var vals = Inr (Some r, a') \<Longrightarrow> assignment_complete c r \<and> a' = r"
proof (induction c a and c a var vals arbitrary: r a' and r a'
    rule: backtrack_backtrack_loop.induct)
  case (1 c a)
  from "1.prems" show ?case
  proof (cases rule: backtrack_Inr)
    case complete
    then show ?thesis by simp
  next
    case (search var vals)
    from search(2) have x: "the (select_unassigned_variable c a) = var" by simp
    from search(3) have od: "order_domain_values c (select_unassigned_variable c a) a = Inr vals"
      by (simp add: search(2))
    from search(4) have "backtrack_loop c a (the (select_unassigned_variable c a)) vals =
        Inr (Some r, a')" by (simp add: x)
    with "1.IH" [OF search(1) refl od] show ?thesis .
  qed
next
  case (2 c a var)
  then show ?case by simp
next
  case (3 c a var v vals)
  from "3.prems" show ?case
  proof (cases rule: backtrack_loop_Cons_Inr)
    case (found result a2)
    from found(4) have "result = Some r" "a2 = a'" by simp_all
    with found(2) have "backtrack c (AList.update var v a) = Inr (Some r, a')" by simp
    from "3.IH"(1) [OF refl found(1) _ this] show ?thesis by simp
  next
    case (retry result a2 a3)
    from "3.IH"(2) [OF refl retry(1) _ retry(2) refl retry(3) _ retry(4) retry(5)]
    show ?thesis by simp
  next
    case (skip a3)
    from "3.IH"(3) [OF refl skip(1) _ skip(2) skip(3)] show ?thesis by simp
  qed
qed

text \<open>
  The three constraints on a (partial) assignment: every assigned word has the length
  of its slot, no two slots hold the same word, and two assigned neighbouring slots
  agree at their overlap.
\<close>

definition constraints_hold :: "crossword \<Rightarrow> assignment \<Rightarrow> bool" where
  "constraints_hold cw a \<longleftrightarrow>
     (\<forall>(x, w) \<in> set a. length w = var_length x) \<and>
     distinct (map snd a) \<and>
     (\<forall>(x, w) \<in> set a. \<forall>y w'. y \<in> set (neighbors cw x) \<and> map_of a y = Some w' \<longrightarrow>
        (\<exists>i j. overlaps cw x y = Some (i, j) \<and> i < length w \<and> j < length w' \<and> w ! i = w' ! j))"

lemma consistent_layers_True:
  "consistent_layers cw a word value layers = Inr True \<Longrightarrow> layer \<in> set layers \<Longrightarrow>
     \<exists>i j lvalue. overlaps cw word layer = Some (i, j) \<and> map_of a layer = Some lvalue \<and>
       i < length value \<and> j < length lvalue \<and> value ! i = lvalue ! j"
proof (induction layers)
  case Nil
  then show ?case by simp
next
  case (Cons l layers)
  from Cons.prems(1) obtain i j where ov: "overlaps cw word l = Some (i, j)"
    by (cases "overlaps cw word l") auto
  from Cons.prems(1) ov have i: "i < length value" by (simp split: if_splits)
  from Cons.prems(1) ov i obtain lvalue where lv: "map_of a l = Some lvalue"
    by (cases "map_of a l") simp_all
  from Cons.prems(1) ov i lv have j: "j < length lvalue" and eq: "value ! i = lvalue ! j"
    and rest: "consistent_layers cw a word value layers = Inr True"
    by (simp_all split: if_splits)
  show ?case
  proof (cases "layer = l")
    case True
    with ov i lv j eq show ?thesis by simp
  next
    case False
    with Cons.prems(2) have "layer \<in> set layers" by simp
    with Cons.IH rest show ?thesis by simp
  qed
qed

lemma consistent_loop_Cons_True:
  assumes "consistent_loop c a done ((word, value) # rest) = Inr True"
  shows "var_length word = length value" and "map_of done value = None"
    and "consistent_layers (crossword c) a word value
           (filter (\<lambda>x. x \<notin> set (filter (\<lambda>x. map_of a x = None) (map fst (domains c))))
              (neighbors (crossword c) word)) = Inr True"
    and "consistent_loop c a (AList.update value word done) rest = Inr True"
proof -
  let ?layers = "filter (\<lambda>x. x \<notin> set (filter (\<lambda>x. map_of a x = None) (map fst (domains c))))
              (neighbors (crossword c) word)"
  from assms show len: "var_length word = length value" by (simp split: if_splits)
  from assms len show dn: "map_of done value = None" by (simp split: if_splits)
  from assms len dn obtain ok where
    cl: "consistent_layers (crossword c) a word value ?layers = Inr ok"
    by (cases "consistent_layers (crossword c) a word value ?layers") (simp_all add: Let_def)
  from assms len dn cl have ok: ok by (cases ok) (simp_all add: Let_def)
  with cl show "consistent_layers (crossword c) a word value ?layers = Inr True" by simp
  from assms len dn cl ok
  show "consistent_loop c a (AList.update value word done) rest = Inr True"
    by (simp add: Let_def)
qed

lemma consistent_loop_entry:
  "consistent_loop c a done rest = Inr True \<Longrightarrow> (x, w) \<in> set rest \<Longrightarrow>
     length w = var_length x \<and> map_of done w = None \<and>
     (\<forall>y w'. y \<in> set (neighbors (crossword c) x) \<and> map_of a y = Some w' \<longrightarrow>
        (\<exists>i j. overlaps (crossword c) x y = Some (i, j) \<and> i < length w \<and> j < length w' \<and>
           w ! i = w' ! j))"
proof (induction rest arbitrary: "done")
  case Nil
  then show ?case by simp
next
  case (Cons p rest)
  obtain word "value" where p: "p = (word, value)" by (cases p)
  note facts = consistent_loop_Cons_True [OF Cons.prems(1) [unfolded p]]
  show ?case
  proof (cases "(x, w) = (word, value)")
    case True
    then have x: "x = word" and w: "w = value" by simp_all
    have "\<exists>i j. overlaps (crossword c) word y = Some (i, j) \<and> i < length value \<and>
        j < length w' \<and> value ! i = w' ! j"
      if y: "y \<in> set (neighbors (crossword c) word)" and w': "map_of a y = Some w'" for y w'
    proof -
      from y w' have "y \<in> set (filter (\<lambda>x. x \<notin> set (filter (\<lambda>x. map_of a x = None)
          (map fst (domains c)))) (neighbors (crossword c) word))" by simp
      from consistent_layers_True [OF facts(3) this] w' show ?thesis by auto
    qed
    with facts(1,2) show ?thesis unfolding x w by simp
  next
    case False
    with Cons.prems(2) p have mem: "(x, w) \<in> set rest" by auto
    from Cons.IH [OF facts(4) mem]
    have 1: "length w = var_length x"
      and 2: "map_of (AList.update value word done) w = None"
      and 3: "\<forall>y w'. y \<in> set (neighbors (crossword c) x) \<and> map_of a y = Some w' \<longrightarrow>
           (\<exists>i j. overlaps (crossword c) x y = Some (i, j) \<and> i < length w \<and> j < length w' \<and>
              w ! i = w' ! j)" by blast+
    from 2 have "map_of done w = None" by (simp add: update_conv' split: if_splits)
    with 1 3 show ?thesis by blast
  qed
qed

lemma consistent_loop_distinct:
  "consistent_loop c a done rest = Inr True \<Longrightarrow> distinct (map snd rest)"
proof (induction rest arbitrary: "done")
  case Nil
  then show ?case by simp
next
  case (Cons p rest)
  obtain word "value" where p: "p = (word, value)" by (cases p)
  note facts = consistent_loop_Cons_True [OF Cons.prems(1) [unfolded p]]
  have "value \<notin> snd ` set rest"
  proof
    assume "value \<in> snd ` set rest"
    then obtain x where "(x, value) \<in> set rest" by auto
    from consistent_loop_entry [OF facts(4) this]
    have "map_of (AList.update value word done) value = None" by simp
    then show False by (simp add: update_conv')
  qed
  with Cons.IH [OF facts(4)] show ?case unfolding p by simp
qed

lemma consistent_True:
  assumes "consistent c (Some a) = Inr True"
  shows "constraints_hold (crossword c) a"
proof -
  from assms have loop: "consistent_loop c a [] a = Inr True" by (simp add: consistent_def)
  have "length w = var_length x \<and>
     (\<forall>y w'. y \<in> set (neighbors (crossword c) x) \<and> map_of a y = Some w' \<longrightarrow>
        (\<exists>i j. overlaps (crossword c) x y = Some (i, j) \<and> i < length w \<and> j < length w' \<and>
           w ! i = w' ! j))" if "(x, w) \<in> set a" for x w
    using consistent_loop_entry [OF loop that] by blast
  with consistent_loop_distinct [OF loop] show ?thesis
    unfolding constraints_hold_def by fast
qed

lemma ac3_loop_crossword:
  "ac3_loop c arcs = Inr c' \<Longrightarrow> crossword c' = crossword c"
proof (induction c arcs rule: ac3_loop.induct)
  case (1 c)
  then show ?case by simp
next
  case (2 c arc arcs)
  obtain v p where arc: "arc = (v, p)" by (cases arc)
  from "2.prems" obtain c1 arcs1 where body: "ac3_body c arc arcs = Inr (c1, arcs1)"
    and loop: "ac3_loop c1 arcs1 = Inr c'"
    by (cases "ac3_body c arc arcs") auto
  from body arc obtain result where "revise c v p = Inr (result, c1)"
    by (auto elim: ac3_body_Inr)
  then have "crossword c1 = crossword c" by (rule crossword_revise)
  with "2.IH" [OF body refl loop] show ?case by simp
qed

lemma solve_Inr:
  assumes "solve c = Inr (result, c')"
  obtains ok a where "ac3 (enforce_node_consistency c) None = Inr (ok, c')"
    and "backtrack c' [] = Inr (result, a)"
proof -
  from assms obtain ok c1 where ac: "ac3 (enforce_node_consistency c) None = Inr (ok, c1)"
    by (cases "ac3 (enforce_node_consistency c) None") (auto simp: solve_def)
  from assms ac obtain res a where bt: "backtrack c1 [] = Inr (res, a)"
    by (cases "backtrack c1 []") (auto simp: solve_def)
  from assms ac bt have "res = result" "c1 = c'" by (simp_all add: solve_def)
  with ac bt show thesis by (intro that) simp_all
qed

lemma solve_state:
  assumes "solve c = Inr (result, c')"
  shows "crossword c' = crossword c" and "pruned_from (domains c') (domains c)"
proof -
  from assms obtain ok a where ac: "ac3 (enforce_node_consistency c) None = Inr (ok, c')"
    by (rule solve_Inr)
  from ac3_Inr(1) [OF ac] have "crossword c' = crossword (enforce_node_consistency c)"
    by (rule ac3_loop_crossword)
  then show "crossword c' = crossword c" by (simp add: enforce_node_consistency_def)
  from ac3_Inr(1) [OF ac]
  have "pruned_from (domains c') (domains (enforce_node_consistency c))"
    by (rule ac3_loop_pruned)
  then show "pruned_from (domains c') (domains c)"
    using enforce_node_consistency_pruned by (rule pruned_from_trans)
qed

lemma consistent_empty: "consistent c (Some []) = Inr True"
  by (simp add: consistent_def)

text \<open>
  Claim C3: a result of \<^verbatim>\<open>solve\<close> other than \<^verbatim>\<open>None\<close> gives a word to every slot,
  passes \<^verbatim>\<open>consistent\<close>, and so meets the length, uniqueness and overlap
  constraints.
\<close>

theorem solve_sound:
  "solve c = Inr (Some r, c') \<Longrightarrow>
     (\<forall>s \<in> set (map fst (domains c)). \<exists>w. map_of r s = Some w) \<and>
     assignment_complete c' r \<and>
     consistent c' (Some r) = Inr True \<and>
     constraints_hold (crossword c) r"
proof -
  assume s: "solve c = Inr (Some r, c')"
  then obtain ok a where bt: "backtrack c' [] = Inr (Some r, a)" by (rule solve_Inr)
  from backtrack_Some_complete(1) [OF bt] have compl: "assignment_complete c' r" by simp
  from bt consistent_empty have cons: "consistent c' (Some r) = Inr True"
    by (rule backtrack_Some_consistent)
  from solve_state(2) [OF s] have "map fst (domains c') = map fst (domains c)"
    by (simp add: pruned_from_def)
  with compl have "\<forall>s \<in> set (map fst (domains c)). \<exists>w. map_of r s = Some w"
    by (simp add: assignment_complete_def list_all_iff)
  moreover from consistent_True [OF cons] solve_state(1) [OF s]
  have "constraints_hold (crossword c) r" by simp
  ultimately show ?thesis using compl cons by simp
qed

definition pool3 :: "string list" where
  "pool3 = [''TOP'', ''TEN'', ''PET'']"

definition solved3 :: creator where
  "solved3 =
     \<lparr>crossword = grid3 [slot_x, slot_y, slot_z] pool3,
      domains = [(slot_x, [''TOP'', ''PET'']), (slot_y, pool3), (slot_z, pool3)]\<rparr>"

lemma node_pool3:
  "enforce_node_consistency (init (grid3 [slot_x, slot_y, slot_z] pool3)) =
     \<lparr>crossword = grid3 [slot_x, slot_y, slot_z] pool3,
      domains = [(slot_x, pool3), (slot_y, pool3), (slot_z, pool3)]\<rparr>"
  by (simp add: enforce_node_consistency_def init_def grid3_def pool3_def)

lemma ac3_pool3:
  "ac3 \<lparr>crossword = grid3 [slot_x, slot_y, slot_z] pool3,
        domains = [(slot_x, pool3), (slot_y, pool3), (slot_z, pool3)]\<rparr> None =
     Inr (True, solved3)"
  by (simp add: ac3_def initial_arcs_def ac3_body_def revise_def grid3_def pool3_def solved3_def)

lemma backtrack_pool3:
  "backtrack solved3 [] =
     Inr (Some [(slot_x, ''TOP''), (slot_y, ''TEN''), (slot_z, ''PET'')],
          [(slot_x, ''TOP''), (slot_y, ''TEN''), (slot_z, ''PET'')])"
  by (simp add: backtrack.simps solved3_def assignment_complete_def
      select_unassigned_variable_def order_domain_values_def sort_num_def consistent_def pop_def
      grid3_def pool3_def Let_def)

lemma solve_pool3:
  "solve (init (grid3 [slot_x, slot_y, slot_z] pool3)) =
     Inr (Some [(slot_x, ''TOP''), (slot_y, ''TEN''), (slot_z, ''PET'')], solved3)"
  unfolding solve_def node_pool3
  by (simp only: ac3_pool3 backtrack_pool3 sum.case prod.case)

theorem solve_sound_witness:
  "solve (init (grid3 [slot_x, slot_y, slot_z] pool3)) =
     Inr (Some [(slot_x, ''TOP''), (slot_y, ''TEN''), (slot_z, ''PET'')], solved3) \<and>
   assignment_complete solved3 [(slot_x, ''TOP''), (slot_y, ''TEN''), (slot_z, ''PET'')] \<and>
   consistent solved3 (Some [(slot_x, ''TOP''), (slot_y, ''TEN''), (slot_z, ''PET'')]) = Inr True \<and>
   constraints_hold (grid3 [slot_x, slot_y, slot_z] pool3)
     [(slot_x, ''TOP''), (slot_y, ''TEN''), (slot_z, ''PET'')]"
  using solve_sound [OF solve_pool3] solve_pool3 by (simp add: init_def)

section \<open>Arc consistency of the result\<close>

text \<open>
  The arc from \<open>x\<close> to \<open>y\<close> is consistent when the two slots have overlap indices
  \<^verbatim>\<open>(i, j)\<close> and every word \<^verbatim>\<open>w\<close> in the domain of \<open>x\<close> has a word \<^verbatim>\<open>v\<close> in the domain
  of \<open>y\<close> with \<^verbatim>\<open>w[i] == v[j]\<close>, both indices within the words.
\<close>

definition arc_consistent :: "creator \<Rightarrow> variable \<Rightarrow> variable \<Rightarrow> bool" where
  "arc_consistent c x y \<longleftrightarrow>
     (\<exists>i j. overlaps (crossword c) x y = Some (i, j) \<and>
        (\<forall>dx w. map_of (domains c) x = Some dx \<and> w \<in> set dx \<longrightarrow>
           (\<exists>dy v. map_of (domains c) y = Some dy \<and> v \<in> set dy \<and>
              i < length w \<and> j < length v \<and> w ! i = v ! j)))"

text \<open>
  The neighbour relation of a grid is symmetric: two slots are neighbours when their
  cells meet.
\<close>

definition neighbors_symmetric :: "creator \<Rightarrow> bool" where
  "neighbors_symmetric c \<longleftrightarrow>
     (\<forall>x \<in> fst ` set (domains c). \<forall>y \<in> set (neighbors (crossword c) x).
        x \<in> set (neighbors (crossword c) y))"

text \<open>The invariant of the queue loop: an arc is waiting in the queue or consistent.\<close>

definition arcs_invariant :: "creator \<Rightarrow> arc list \<Rightarrow> bool" where
  "arcs_invariant c arcs \<longleftrightarrow>
     (\<forall>x \<in> fst ` set (domains c). \<forall>y \<in> set (neighbors (crossword c) x).
        (x, y) \<in> set arcs \<or> arc_consistent c x y)"

lemma revise_loop_bounds:
  "revise_loop i j dx dy = Inr r \<Longrightarrow> w \<in> set dx \<Longrightarrow>
     \<exists>ys. dy = Some ys \<and> (\<forall>v \<in> set ys. i < length w \<and> j < length v)"
proof (induction dx arbitrary: r)
  case Nil
  then show ?case by simp
next
  case (Cons xvalue xs)
  from Cons.prems(1) obtain ys where dy: "dy = Some ys"
    by (cases dy) simp_all
  from Cons.prems(1) dy obtain n where cm: "count_matches i j xvalue ys = Inr n"
    by (cases "count_matches i j xvalue ys") simp_all
  from Cons.prems(1) dy cm obtain r' where rl: "revise_loop i j xs dy = Inr r'"
    by (cases "revise_loop i j xs dy") auto
  show ?case
  proof (cases "w = xvalue")
    case True
    from count_matches_Inr [OF cm]
    have a: "ys \<noteq> [] \<longrightarrow> i < length xvalue" and b: "\<forall>v \<in> set ys. j < length v" by simp_all
    have "\<forall>v \<in> set ys. i < length w \<and> j < length v"
    proof
      fix v assume v: "v \<in> set ys"
      then have "ys \<noteq> []" by auto
      with a b v True show "i < length w \<and> j < length v" by simp
    qed
    with dy show ?thesis by simp
  next
    case False
    with Cons.prems(2) have "w \<in> set xs" by simp
    with Cons.IH [OF rl] show ?thesis .
  qed
qed

lemma revise_arc:
  assumes "revise c x y = Inr (revised, c')"
  obtains dx i j where "map_of (domains c) x = Some dx"
    and "overlaps (crossword c) x y = Some (i, j)"
    and "map_of (domains c') =
           (map_of (domains c))(x \<mapsto>
              filter (\<lambda>w. \<exists>v \<in> set (the (map_of (domains c) y)). w ! i = v ! j) dx)"
    and "fst ` set (domains c') = fst ` set (domains c)"
    and "crossword c' = crossword c"
    and "revised \<longleftrightarrow> \<not> (\<forall>w \<in> set dx. \<exists>v \<in> set (the (map_of (domains c) y)). w ! i = v ! j)"
    and "\<forall>w \<in> set dx. \<exists>dy. map_of (domains c) y = Some dy \<and>
           (\<forall>v \<in> set dy. i < length w \<and> j < length v)"
proof -
  from assms obtain dx i j xval where dx: "map_of (domains c) x = Some dx"
    and ov: "overlaps (crossword c) x y = Some (i, j)"
    and rl: "revise_loop i j dx (map_of (domains c) y) = Inr (revised, xval)"
    and c': "c' = c\<lparr>domains := AList.update x xval (domains c)\<rparr>"
    by (rule revise_Inr)
  from revise_loop_Inr [OF rl]
  have xv: "xval = filter (\<lambda>w. \<exists>v \<in> set (the (map_of (domains c) y)). w ! i = v ! j) dx"
    and r: "revised \<longleftrightarrow> xval \<noteq> dx" by simp_all
  from r have rev: "revised \<longleftrightarrow>
      \<not> (\<forall>w \<in> set dx. \<exists>v \<in> set (the (map_of (domains c) y)). w ! i = v ! j)"
    unfolding xv by (simp only: filter_id_conv)
  from dx have "x \<in> fst ` set (domains c)" by (auto dest: map_of_SomeD intro: rev_image_eqI)
  then have keys: "fst ` set (domains c') = fst ` set (domains c)"
    unfolding c' by (simp add: dom_update insert_absorb)
  have maps: "map_of (domains c') = (map_of (domains c))(x \<mapsto>
              filter (\<lambda>w. \<exists>v \<in> set (the (map_of (domains c) y)). w ! i = v ! j) dx)"
    unfolding c' by (simp add: update_conv' xv)
  have bounds: "\<forall>w \<in> set dx. \<exists>dy. map_of (domains c) y = Some dy \<and>
           (\<forall>v \<in> set dy. i < length w \<and> j < length v)"
    using revise_loop_bounds [OF rl] by blast
  have cw: "crossword c' = crossword c" unfolding c' by simp
  from dx ov maps keys cw rev bounds show thesis by (rule that)
qed

lemma revise_unrevised:
  assumes "revise c x y = Inr (False, c')"
  shows "map_of (domains c') = map_of (domains c)"
proof -
  from assms obtain dx i j where dx: "map_of (domains c) x = Some dx"
    and maps: "map_of (domains c') = (map_of (domains c))(x \<mapsto>
        filter (\<lambda>w. \<exists>v \<in> set (the (map_of (domains c) y)). w ! i = v ! j) dx)"
    and rev: "False \<longleftrightarrow>
        \<not> (\<forall>w \<in> set dx. \<exists>v \<in> set (the (map_of (domains c) y)). w ! i = v ! j)"
    by (rule revise_arc)
  from rev have "filter (\<lambda>w. \<exists>v \<in> set (the (map_of (domains c) y)). w ! i = v ! j) dx = dx"
    by (simp only: filter_id_conv simp_thms)
  with maps dx show ?thesis by (simp add: map_upd_triv)
qed

lemma arc_consistent_cong:
  "crossword c' = crossword c \<Longrightarrow> map_of (domains c') = map_of (domains c) \<Longrightarrow>
     arc_consistent c' a b = arc_consistent c a b"
  by (simp add: arc_consistent_def)

lemma arc_consistentI:
  assumes "overlaps (crossword c) x y = Some (i, j)"
    and "\<And>dx w. map_of (domains c) x = Some dx \<Longrightarrow> w \<in> set dx \<Longrightarrow>
       \<exists>dy v. map_of (domains c) y = Some dy \<and> v \<in> set dy \<and>
         i < length w \<and> j < length v \<and> w ! i = v ! j"
  shows "arc_consistent c x y"
  unfolding arc_consistent_def
proof (rule exI [of _ i], rule exI [of _ j], intro conjI allI impI)
  show "overlaps (crossword c) x y = Some (i, j)" by (rule assms(1))
next
  fix dx w
  assume "map_of (domains c) x = Some dx \<and> w \<in> set dx"
  then have "map_of (domains c) x = Some dx" "w \<in> set dx" by simp_all
  then show "\<exists>dy v. map_of (domains c) y = Some dy \<and> v \<in> set dy \<and>
         i < length w \<and> j < length v \<and> w ! i = v ! j" by (rule assms(2))
qed

lemma arc_consistentE:
  assumes "arc_consistent c x y"
  obtains i j where "overlaps (crossword c) x y = Some (i, j)"
    and "\<And>dx w. map_of (domains c) x = Some dx \<Longrightarrow> w \<in> set dx \<Longrightarrow>
       \<exists>dy v. map_of (domains c) y = Some dy \<and> v \<in> set dy \<and>
         i < length w \<and> j < length v \<and> w ! i = v ! j"
proof -
  from assms obtain i j where ov: "overlaps (crossword c) x y = Some (i, j)"
    and all: "\<forall>dx w. map_of (domains c) x = Some dx \<and> w \<in> set dx \<longrightarrow>
           (\<exists>dy v. map_of (domains c) y = Some dy \<and> v \<in> set dy \<and>
              i < length w \<and> j < length v \<and> w ! i = v ! j)"
    unfolding arc_consistent_def by (elim exE conjE)
  show thesis
  proof (rule that [OF ov])
    fix dx w
    assume "map_of (domains c) x = Some dx" "w \<in> set dx"
    with all show "\<exists>dy v. map_of (domains c) y = Some dy \<and> v \<in> set dy \<and>
         i < length w \<and> j < length v \<and> w ! i = v ! j" by (elim allE impE) simp_all
  qed
qed

lemma revise_keeps_arc:
  assumes rv: "revise c x y = Inr (revised, c')"
    and arc: "arc_consistent c a b"
    and side: "b \<noteq> x \<or> \<not> revised"
  shows "arc_consistent c' a b"
proof (cases revised)
  case False
  with rv have "revise c x y = Inr (False, c')" by simp
  then have m: "map_of (domains c') = map_of (domains c)" by (rule revise_unrevised)
  from rv have cw: "crossword c' = crossword c" by (rule crossword_revise)
  from arc show ?thesis by (simp only: arc_consistent_cong [OF cw m])
next
  case True
  with side have bx: "b \<noteq> x" by simp
  from rv obtain dx i j where dx: "map_of (domains c) x = Some dx"
    and maps: "map_of (domains c') = (map_of (domains c))(x \<mapsto>
        filter (\<lambda>w. \<exists>v \<in> set (the (map_of (domains c) y)). w ! i = v ! j) dx)"
    and cw: "crossword c' = crossword c"
    by (rule revise_arc)
  from maps bx have b: "map_of (domains c') b = map_of (domains c) b" by simp
  show ?thesis
  proof (rule arc_consistentE [OF arc])
  fix i' j'
  assume ov: "overlaps (crossword c) a b = Some (i', j')"
    and sup: "\<And>da w. map_of (domains c) a = Some da \<Longrightarrow> w \<in> set da \<Longrightarrow>
        \<exists>dy v. map_of (domains c) b = Some dy \<and> v \<in> set dy \<and>
          i' < length w \<and> j' < length v \<and> w ! i' = v ! j'"
  from ov cw have ov': "overlaps (crossword c') a b = Some (i', j')" by simp
  show ?thesis
  proof (rule arc_consistentI [OF ov'])
    fix da w
    assume da: "map_of (domains c') a = Some da" and w: "w \<in> set da"
    have "\<exists>da0. map_of (domains c) a = Some da0 \<and> w \<in> set da0"
    proof (cases "a = x")
      case True
      with da maps
      have "da = filter (\<lambda>w. \<exists>v \<in> set (the (map_of (domains c) y)). w ! i = v ! j) dx"
        by simp
      with w have "w \<in> set dx" by simp
      with dx True show ?thesis by simp
    next
      case False
      with da maps have "map_of (domains c) a = Some da" by simp
      with w show ?thesis by simp
    qed
    then obtain da0 where "map_of (domains c) a = Some da0" "w \<in> set da0" by (elim exE conjE)
    from sup [OF this] show "\<exists>dy v. map_of (domains c') b = Some dy \<and> v \<in> set dy \<and>
          i' < length w \<and> j' < length v \<and> w ! i' = v ! j'" by (simp only: b)
  qed
  qed
qed

lemma revise_makes_arc:
  assumes rv: "revise c x y = Inr (revised, c')"
    and side: "y \<noteq> x \<or> \<not> revised"
  shows "arc_consistent c' x y"
proof -
  from rv obtain dx i j where dx: "map_of (domains c) x = Some dx"
    and ov: "overlaps (crossword c) x y = Some (i, j)"
    and maps: "map_of (domains c') = (map_of (domains c))(x \<mapsto>
        filter (\<lambda>w. \<exists>v \<in> set (the (map_of (domains c) y)). w ! i = v ! j) dx)"
    and cw: "crossword c' = crossword c"
    and bounds: "\<forall>w \<in> set dx. \<exists>dy. map_of (domains c) y = Some dy \<and>
           (\<forall>v \<in> set dy. i < length w \<and> j < length v)"
    by (rule revise_arc)
  have y: "map_of (domains c') y = map_of (domains c) y"
  proof (cases "y = x")
    case True
    with side have "\<not> revised" by simp
    with rv have "revise c x y = Inr (False, c')" by simp
    then have "map_of (domains c') = map_of (domains c)" by (rule revise_unrevised)
    then show ?thesis by (rule arg_cong [where f = "\<lambda>m. m y"])
  next
    case False
    with maps show ?thesis by simp
  qed
  from ov cw have ov': "overlaps (crossword c') x y = Some (i, j)" by simp
  show ?thesis
  proof (rule arc_consistentI [OF ov'])
    fix da w
    assume da: "map_of (domains c') x = Some da" and w: "w \<in> set da"
    from da maps
    have "da = filter (\<lambda>w. \<exists>v \<in> set (the (map_of (domains c) y)). w ! i = v ! j) dx" by simp
    with w have wdx: "w \<in> set dx"
      and ex: "\<exists>v \<in> set (the (map_of (domains c) y)). w ! i = v ! j" by simp_all
    from ex obtain v where v: "v \<in> set (the (map_of (domains c) y))" and eq: "w ! i = v ! j"
      by (elim bexE)
    from bounds wdx have "\<exists>dy. map_of (domains c) y = Some dy \<and>
           (\<forall>v \<in> set dy. i < length w \<and> j < length v)" by (rule bspec)
    then obtain dy where dy: "map_of (domains c) y = Some dy"
      and b: "\<forall>v \<in> set dy. i < length w \<and> j < length v" by (elim exE conjE)
    from v dy have vdy: "v \<in> set dy" by simp
    with b have "i < length w" "j < length v" by simp_all
    with vdy eq dy y
    show "\<exists>dy v. map_of (domains c') y = Some dy \<and> v \<in> set dy \<and>
          i < length w \<and> j < length v \<and> w ! i = v ! j"
      by (intro exI [of _ dy] exI [of _ v]) simp
  qed
qed

lemma ac3_body_invariant:
  assumes sym: "neighbors_symmetric c"
    and inv: "arcs_invariant c ((v, p) # arcs)"
    and body: "ac3_body c (v, p) arcs = Inr (c', arcs')"
  shows "arcs_invariant c' arcs'"
proof -
  from body obtain result where rv: "revise c v p = Inr (result, c')"
    and q: "arcs' = (if result then arcs @ map (\<lambda>other. (other, v)) (neighbors (crossword c') v)
                     else arcs)"
    by (rule ac3_body_Inr)
  from rv have cw: "crossword c' = crossword c" by (rule crossword_revise)
  from rv have keys: "fst ` set (domains c') = fst ` set (domains c)"
    by (rule revise_arc)
  have "(x, y) \<in> set arcs' \<or> arc_consistent c' x y"
    if x: "x \<in> fst ` set (domains c)" and y: "y \<in> set (neighbors (crossword c) x)" for x y
  proof (cases "result \<and> y = v")
    case True
    from sym x y have "x \<in> set (neighbors (crossword c) y)"
      unfolding neighbors_symmetric_def by blast
    with True cw q have "(x, y) \<in> set arcs'" by auto
    then show ?thesis ..
  next
    case side: False
    show ?thesis
    proof (cases "(x, y) = (v, p)")
      case True
      with side have "p \<noteq> v \<or> \<not> result" by auto
      with rv have "arc_consistent c' v p" by (rule revise_makes_arc)
      with True show ?thesis by simp
    next
      case False
      from inv x y have "(x, y) \<in> set ((v, p) # arcs) \<or> arc_consistent c x y"
        unfolding arcs_invariant_def by blast
      then show ?thesis
      proof
        assume "(x, y) \<in> set ((v, p) # arcs)"
        with False have "(x, y) \<in> set arcs" by auto
        with q have "(x, y) \<in> set arcs'" by simp
        then show ?thesis ..
      next
        assume arc: "arc_consistent c x y"
        from side have "y \<noteq> v \<or> \<not> result" by auto
        with rv arc have "arc_consistent c' x y" by (rule revise_keeps_arc)
        then show ?thesis ..
      qed
    qed
  qed
  with keys cw show ?thesis unfolding arcs_invariant_def by simp
qed

lemma ac3_body_symmetric:
  assumes "neighbors_symmetric c" and "ac3_body c (v, p) arcs = Inr (c', arcs')"
  shows "neighbors_symmetric c'"
proof -
  from assms(2) obtain result where rv: "revise c v p = Inr (result, c')"
    by (rule ac3_body_Inr)
  from rv have "crossword c' = crossword c" by (rule crossword_revise)
  moreover from rv have "fst ` set (domains c') = fst ` set (domains c)"
    by (rule revise_arc)
  ultimately show ?thesis using assms(1) by (simp add: neighbors_symmetric_def)
qed

lemma ac3_loop_invariant:
  "ac3_loop c arcs = Inr c' \<Longrightarrow> neighbors_symmetric c \<Longrightarrow> arcs_invariant c arcs \<Longrightarrow>
     arcs_invariant c' []"
proof (induction c arcs rule: ac3_loop.induct)
  case (1 c)
  then show ?case by simp
next
  case (2 c arc arcs)
  obtain v p where arc: "arc = (v, p)" by (cases arc)
  from "2.prems"(1) obtain c1 arcs1 where body: "ac3_body c arc arcs = Inr (c1, arcs1)"
    and loop: "ac3_loop c1 arcs1 = Inr c'"
    by (cases "ac3_body c arc arcs") auto
  from "2.prems"(2) body [unfolded arc] have sym1: "neighbors_symmetric c1"
    by (rule ac3_body_symmetric)
  from "2.prems"(2) "2.prems"(3) [unfolded arc] body [unfolded arc]
  have inv1: "arcs_invariant c1 arcs1" by (rule ac3_body_invariant)
  from "2.IH" [OF body refl loop sym1 inv1] show ?case .
qed

lemma initial_arcs_mem:
  "x \<in> fst ` set (domains c) \<Longrightarrow> y \<in> set (neighbors (crossword c) x) \<Longrightarrow>
     (x, y) \<in> set (initial_arcs c)"
  unfolding initial_arcs_def by (simp add: image_iff) blast

lemma initial_arcs_invariant: "arcs_invariant c (initial_arcs c)"
  unfolding arcs_invariant_def by (simp add: initial_arcs_mem)

text \<open>
  Claim C4: after \<^verbatim>\<open>ac3()\<close>, called without a queue on a grid whose neighbour relation
  is symmetric, has returned (true or false), every arc is consistent: for every slot
  \<open>x\<close>, every neighbour \<open>y\<close> of \<open>x\<close> and every word \<^verbatim>\<open>w\<close> left in the domain of \<open>x\<close>
  there is a word \<^verbatim>\<open>v\<close> in the domain of \<open>y\<close> with \<^verbatim>\<open>w[i] == v[j]\<close> at their overlap
  indices.
\<close>

theorem ac3_arc_consistent:
  assumes "neighbors_symmetric c" and "ac3 c None = Inr (ok, c')"
  shows "\<forall>x \<in> fst ` set (domains c'). \<forall>y \<in> set (neighbors (crossword c') x).
           arc_consistent c' x y"
proof -
  from ac3_Inr(1) [OF assms(2)] have "ac3_loop c (initial_arcs c) = Inr c'" by simp
  from ac3_loop_invariant [OF this assms(1) initial_arcs_invariant]
  show ?thesis by (simp add: arcs_invariant_def)
qed

lemma symmetric_pool3:
  "neighbors_symmetric \<lparr>crossword = grid3 [slot_x, slot_y, slot_z] pool3,
        domains = [(slot_x, pool3), (slot_y, pool3), (slot_z, pool3)]\<rparr>"
  by (simp add: neighbors_symmetric_def grid3_def)

theorem ac3_arc_consistent_witness:
  "neighbors_symmetric \<lparr>crossword = grid3 [slot_x, slot_y, slot_z] pool3,
        domains = [(slot_x, pool3), (slot_y, pool3), (slot_z, pool3)]\<rparr> \<and>
   ac3 \<lparr>crossword = grid3 [slot_x, slot_y, slot_z] pool3,
        domains = [(slot_x, pool3), (slot_y, pool3), (slot_z, pool3)]\<rparr> None =
     Inr (True, solved3) \<and>
   arc_consistent solved3 slot_x slot_y \<and> arc_consistent solved3 slot_y slot_x \<and>
   arc_consistent solved3 slot_x slot_z \<and> arc_consistent solved3 slot_z slot_x"
proof -
  from ac3_arc_consistent [OF symmetric_pool3 ac3_pool3]
  have all: "\<forall>x \<in> fst ` set (domains solved3). \<forall>y \<in> set (neighbors (crossword solved3) x).
           arc_consistent solved3 x y" .
  have "slot_x \<in> fst ` set (domains solved3)" "slot_y \<in> fst ` set (domains solved3)"
    "slot_z \<in> fst ` set (domains solved3)"
    by (simp_all add: solved3_def)
  moreover have "slot_y \<in> set (neighbors (crossword solved3) slot_x)"
    "slot_z \<in> set (neighbors (crossword solved3) slot_x)"
    "slot_x \<in> set (neighbors (crossword solved3) slot_y)"
    "slot_x \<in> set (neighbors (crossword solved3) slot_z)"
    by (simp_all add: solved3_def grid3_def)
  ultimately have "arc_consistent solved3 slot_x slot_y" "arc_consistent solved3 slot_y slot_x"
    "arc_consistent solved3 slot_x slot_z" "arc_consistent solved3 slot_z slot_x"
    using all by blast+
  with symmetric_pool3 ac3_pool3 show ?thesis by simp
qed

text \<open>
  What \<^verbatim>\<open>select_unassigned_variable\<close> does guarantee: the variable returned is a
  key of \<^verbatim>\<open>self.domains\<close> that is not in the assignment, and no such key has a
  smaller domain.
\<close>

lemma select_loop_min:
  assumes "(m, wm) \<in> set d" and "length wm = n"
    and "set options \<subseteq> set d"
  shows "\<exists>ws. (select_loop cw m n options, ws) \<in> set d \<and> length ws \<le> n \<and>
           (\<forall>(v', ws') \<in> set options. length ws \<le> length ws')"
  using assms
proof (induction options arbitrary: m wm n)
  case Nil
  then show ?case by auto
next
  case (Cons p options)
  obtain v ws where p: "p = (v, ws)" by (cases p)
  from Cons.prems(3) p have v: "(v, ws) \<in> set d" and sub: "set options \<subseteq> set d" by simp_all
  consider (take) "select_loop cw m n (p # options) = select_loop cw v (length ws) options"
      "length ws \<le> n"
    | (keep) "select_loop cw m n (p # options) = select_loop cw m n options" "n \<le> length ws"
    unfolding p
    by (cases "length ws = n"; cases "length ws < n";
        cases "set (neighbors cw m) \<subset> set (neighbors cw v)") (auto simp: Let_def)
  then show ?case
  proof cases
    case take
    from Cons.IH [OF v refl sub] obtain ws0 where
      "(select_loop cw v (length ws) options, ws0) \<in> set d" "length ws0 \<le> length ws"
      "\<forall>(v', ws') \<in> set options. length ws0 \<le> length ws'" by blast
    with take show ?thesis unfolding p by (intro exI [of _ ws0]) auto
  next
    case keep
    from Cons.IH [OF Cons.prems(1,2) sub] obtain ws0 where
      "(select_loop cw m n options, ws0) \<in> set d" "length ws0 \<le> n"
      "\<forall>(v', ws') \<in> set options. length ws0 \<le> length ws'" by blast
    with keep show ?thesis unfolding p by (intro exI [of _ ws0]) auto
  qed
qed

lemma select_unassigned_variable_min:
  assumes "select_unassigned_variable c a = Some var"
  shows "\<exists>ws. (var, ws) \<in> set (domains c) \<and> map_of a var = None \<and>
           (\<forall>(v', ws') \<in> set (domains c). map_of a v' = None \<longrightarrow> length ws \<le> length ws')"
proof -
  let ?opts = "filter (\<lambda>(x, ws). map_of a x = None) (domains c)"
  from assms obtain m wm options where opts: "?opts = (m, wm) # options"
    and var: "var = select_loop (crossword c) m (length wm) options"
    by (auto simp: select_unassigned_variable_def split: list.splits)
  have m: "(m, wm) \<in> set ?opts" and sub: "set options \<subseteq> set ?opts"
    unfolding opts by auto
  from select_loop_min [OF m refl sub, of "crossword c"] var obtain ws where
    ws: "(var, ws) \<in> set ?opts" and le: "length ws \<le> length wm"
    and all: "\<forall>(v', ws') \<in> set options. length ws \<le> length ws'" by blast
  have "length ws \<le> length ws'" if "(v', ws') \<in> set ?opts" for v' ws'
  proof -
    from that opts have "(v', ws') = (m, wm) \<or> (v', ws') \<in> set options" by simp
    with le all show ?thesis by auto
  qed
  then have "\<forall>(v', ws') \<in> set (domains c). map_of a v' = None \<longrightarrow> length ws \<le> length ws'"
    by auto
  moreover from ws have "(var, ws) \<in> set (domains c)" "map_of a var = None" by auto
  ultimately show ?thesis by blast
qed

text \<open>
  What \<^verbatim>\<open>consistent\<close> does guarantee. It returns true only when the three
  constraints hold (lemma \<open>consistent_True\<close>); and when they hold and the neighbours
  of the assigned slots are slots of the grid, it returns true.
\<close>

lemma consistent_layers_complete:
  assumes "\<And>layer. layer \<in> set layers \<Longrightarrow>
      \<exists>i j lvalue. overlaps cw word layer = Some (i, j) \<and> map_of a layer = Some lvalue \<and>
        i < length value \<and> j < length lvalue \<and> value ! i = lvalue ! j"
  shows "consistent_layers cw a word value layers = Inr True"
  using assms
proof (induction layers)
  case Nil
  show ?case by simp
next
  case (Cons l layers)
  from Cons.prems [of l] obtain i j lvalue where "overlaps cw word l = Some (i, j)"
    "map_of a l = Some lvalue" "i < length value" "j < length lvalue" "value ! i = lvalue ! j"
    by auto
  moreover have "consistent_layers cw a word value layers = Inr True"
  proof (rule Cons.IH)
    fix layer
    assume "layer \<in> set layers"
    then have "layer \<in> set (l # layers)" by simp
    then show "\<exists>i j lvalue. overlaps cw word layer = Some (i, j) \<and>
        map_of a layer = Some lvalue \<and>
        i < length value \<and> j < length lvalue \<and> value ! i = lvalue ! j" by (rule Cons.prems)
  qed
  ultimately show ?case by simp
qed

lemma consistent_loop_complete:
  assumes "\<And>x w. (x, w) \<in> set rest \<Longrightarrow> var_length x = length w \<and> map_of done w = None \<and>
      consistent_layers (crossword c) a x w
        (filter (\<lambda>y. y \<notin> set (filter (\<lambda>y. map_of a y = None) (map fst (domains c))))
           (neighbors (crossword c) x)) = Inr True"
    and "distinct (map snd rest)"
  shows "consistent_loop c a done rest = Inr True"
  using assms
proof (induction rest arbitrary: "done")
  case Nil
  show ?case by simp
next
  case (Cons p rest)
  obtain word "value" where p: "p = (word, value)" by (cases p)
  from Cons.prems(1) [of word "value"] p
  have head: "var_length word = length value" "map_of done value = None"
    "consistent_layers (crossword c) a word value
        (filter (\<lambda>y. y \<notin> set (filter (\<lambda>y. map_of a y = None) (map fst (domains c))))
           (neighbors (crossword c) word)) = Inr True"
    by simp_all
  from Cons.prems(2) p have fresh: "value \<notin> snd ` set rest" and dist: "distinct (map snd rest)"
    by simp_all
  have "consistent_loop c a (AList.update value word done) rest = Inr True"
  proof (rule Cons.IH [OF _ dist])
    fix x w
    assume mem: "(x, w) \<in> set rest"
    with fresh have "w \<noteq> value" by (auto simp: image_iff)
    moreover from mem Cons.prems(1) [of x w] have "var_length x = length w \<and> map_of done w = None \<and>
      consistent_layers (crossword c) a x w
        (filter (\<lambda>y. y \<notin> set (filter (\<lambda>y. map_of a y = None) (map fst (domains c))))
           (neighbors (crossword c) x)) = Inr True" by simp
    ultimately show "var_length x = length w \<and> map_of (AList.update value word done) w = None \<and>
      consistent_layers (crossword c) a x w
        (filter (\<lambda>y. y \<notin> set (filter (\<lambda>y. map_of a y = None) (map fst (domains c))))
           (neighbors (crossword c) x)) = Inr True" by (simp add: update_conv')
  qed
  with head show ?case unfolding p by (simp add: Let_def)
qed

lemma consistent_complete:
  assumes ch: "constraints_hold (crossword c) a"
    and nb: "\<And>x w y. (x, w) \<in> set a \<Longrightarrow> y \<in> set (neighbors (crossword c) x) \<Longrightarrow>
        y \<in> fst ` set (domains c)"
  shows "consistent c (Some a) = Inr True"
proof -
  from ch have len: "\<And>x w. (x, w) \<in> set a \<Longrightarrow> length w = var_length x"
    and dist: "distinct (map snd a)"
    and ov: "\<And>x w y w'. (x, w) \<in> set a \<Longrightarrow> y \<in> set (neighbors (crossword c) x) \<Longrightarrow>
        map_of a y = Some w' \<Longrightarrow>
        \<exists>i j. overlaps (crossword c) x y = Some (i, j) \<and> i < length w \<and> j < length w' \<and>
          w ! i = w' ! j"
    unfolding constraints_hold_def by blast+
  have "consistent_loop c a [] a = Inr True"
  proof (rule consistent_loop_complete [OF _ dist])
    fix x w
    assume mem: "(x, w) \<in> set a"
    have "consistent_layers (crossword c) a x w
        (filter (\<lambda>y. y \<notin> set (filter (\<lambda>y. map_of a y = None) (map fst (domains c))))
           (neighbors (crossword c) x)) = Inr True"
    proof (rule consistent_layers_complete)
      fix layer
      assume "layer \<in> set (filter (\<lambda>y. y \<notin> set (filter (\<lambda>y. map_of a y = None)
          (map fst (domains c)))) (neighbors (crossword c) x))"
      then have l: "layer \<in> set (neighbors (crossword c) x)"
        and "layer \<notin> fst ` set (domains c) \<or> map_of a layer \<noteq> None" by auto
      with nb [OF mem l] obtain w' where w': "map_of a layer = Some w'" by auto
      from ov [OF mem l w'] w'
      show "\<exists>i j lvalue. overlaps (crossword c) x layer = Some (i, j) \<and>
          map_of a layer = Some lvalue \<and> i < length w \<and> j < length lvalue \<and>
          w ! i = lvalue ! j" by auto
    qed
    with len [OF mem]
    show "var_length x = length w \<and> map_of [] w = None \<and>
      consistent_layers (crossword c) a x w
        (filter (\<lambda>y. y \<notin> set (filter (\<lambda>y. map_of a y = None) (map fst (domains c))))
           (neighbors (crossword c) x)) = Inr True" by simp
  qed
  then show ?thesis by (simp add: consistent_def)
qed

end
